theory Spec2Isabelle
  imports Complex_Main "HOL-Library.Word" "HOL-Library.Sublist"
begin

section \<open>Strings of the host language\<close>

text \<open>
  A string of the source language is a finite sequence of 16-bit code units, and
  \<open>length\<close>, \<open>substring\<close>, \<open>slice\<close>, \<open>split\<close> and the regular expressions without the
  \<open>u\<close> flag all work on code units. A string is therefore a list of 16-bit words.
  \<open>asc\<close> embeds an ASCII literal.
\<close>

type_synonym jschar = "16 word"
type_synonym jsstring = "jschar list"

definition asc :: "string \<Rightarrow> jsstring" where
  "asc s = map of_char s"

definition CR :: jschar where "CR = 0x0D"
definition LF :: jschar where "LF = 0x0A"
definition CRLF :: jsstring where "CRLF = [CR, LF]"

text \<open>\<open>s.includes(p)\<close>: some position of \<open>s\<close> starts with \<open>p\<close>.\<close>

fun String_includes :: "jsstring \<Rightarrow> jsstring \<Rightarrow> bool" where
  "String_includes [] p = (p = [])"
| "String_includes (c # cs) p = (prefix p (c # cs) \<or> String_includes cs p)"

text \<open>\<open>s.replace(/\r\n/g, '\n')\<close>: a left-to-right scan, matches do not overlap.\<close>

fun replace_CRLF :: "jsstring \<Rightarrow> jsstring" where
  "replace_CRLF (c # d # r) =
     (if c = CR \<and> d = LF then LF # replace_CRLF r else c # replace_CRLF (d # r))"
| "replace_CRLF [c] = [c]"
| "replace_CRLF [] = []"

text \<open>\<open>s.replace(/\r\n|\r/g, '\n')\<close>: the first alternative is tried first.\<close>

fun replace_CRLF_or_CR :: "jsstring \<Rightarrow> jsstring" where
  "replace_CRLF_or_CR (c # d # r) =
     (if c = CR \<and> d = LF then LF # replace_CRLF_or_CR r
      else if c = CR then LF # replace_CRLF_or_CR (d # r)
      else c # replace_CRLF_or_CR (d # r))"
| "replace_CRLF_or_CR [c] = (if c = CR then [LF] else [c])"
| "replace_CRLF_or_CR [] = []"

text \<open>\<open>s.replace(/\n/g, e)\<close> with a replacement \<open>e\<close> free of \<open>$\<close>.\<close>

fun replace_LF :: "jsstring \<Rightarrow> jsstring \<Rightarrow> jsstring" where
  "replace_LF [] e = []"
| "replace_LF (c # cs) e = (if c = LF then e @ replace_LF cs e else c # replace_LF cs e)"

text \<open>\<open>s.split(sep)\<close> for a one-unit separator: the empty string gives one empty piece.\<close>

fun String_split :: "jsstring \<Rightarrow> jschar \<Rightarrow> jsstring list" where
  "String_split [] sep = [[]]"
| "String_split (c # cs) sep =
     (if c = sep then [] # String_split cs sep
      else (case String_split cs sep of
              [] \<Rightarrow> [[c]]
            | l # ls \<Rightarrow> (c # l) # ls))"

text \<open>\<open>a.join(sep)\<close> on an array of strings.\<close>

fun Array_join :: "jsstring list \<Rightarrow> jsstring \<Rightarrow> jsstring" where
  "Array_join [] sep = []"
| "Array_join [l] sep = l"
| "Array_join (l # m # ls) sep = l @ sep @ Array_join (m # ls) sep"

text \<open>
  \<open>s.substring(start, end)\<close> and \<open>s.substring(start)\<close> on integral arguments: both
  bounds are clamped into \<open>[0, length]\<close> and swapped when they are out of order.
\<close>

definition String_substring :: "jsstring \<Rightarrow> int \<Rightarrow> int \<Rightarrow> jsstring" where
  "String_substring s start end =
     (let len = int (length s);
          finalStart = min (max start 0) len;
          finalEnd = min (max end 0) len;
          from = min finalStart finalEnd;
          to = max finalStart finalEnd
      in take (nat (to - from)) (drop (nat from) s))"

definition String_substring_from :: "jsstring \<Rightarrow> int \<Rightarrow> jsstring" where
  "String_substring_from s start =
     (let len = int (length s);
          finalStart = min (max start 0) len
      in drop (nat finalStart) s)"

text \<open>\<open>s.slice(0, end)\<close> for \<open>end \<ge> 0\<close>, already truncated to an integer.\<close>

definition String_slice0 :: "jsstring \<Rightarrow> nat \<Rightarrow> jsstring" where
  "String_slice0 s end = take (min end (length s)) s"

text \<open>
  \<open>a.splice(start, deleteCount, ...items)\<close> on integral arguments, returning the
  array as it is after the call.
\<close>

definition Array_splice :: "'a list \<Rightarrow> int \<Rightarrow> int \<Rightarrow> 'a list \<Rightarrow> 'a list" where
  "Array_splice a start deleteCount items =
     (let len = int (length a);
          actualStart = (if start < 0 then max (len + start) 0 else min start len);
          actualDeleteCount = min (max deleteCount 0) (len - actualStart)
      in take (nat actualStart) a @ items @ drop (nat (actualStart + actualDeleteCount)) a)"

section \<open>Positional edit: the text computed by \<open>replace_file_content_at_position\<close>\<close>

datatype editError = InvalidLineNumbers | NoOccurrencesFound | ReplacementFailed

text \<open>
  Lines 379 to 412 of \<open>ReplaceFileContentAtPositionTool.execute\<close>: from the text read
  to the text written. The line numbers and the offset are the integral values of the
  tool's numeric arguments.
\<close>

definition detectLineEnding :: "jsstring \<Rightarrow> jsstring" where
  "detectLineEnding currentContent =
     (if String_includes currentContent CRLF then CRLF else [LF])"

definition replaceSingleLine :: "jsstring \<Rightarrow> int \<Rightarrow> jsstring \<Rightarrow> jsstring" where
  "replaceSingleLine lineToModify offset adaptedContent =
     String_substring lineToModify 0 offset @ adaptedContent @
     String_substring_from lineToModify (offset + int (length adaptedContent))"

definition replaceAtPosition ::
  "jsstring \<Rightarrow> int \<Rightarrow> int \<Rightarrow> jsstring \<Rightarrow> int \<Rightarrow> editError + jsstring" where
  "replaceAtPosition currentContent startLine endLine content offset =
     (let originalLineEnding = detectLineEnding currentContent;
          normalizedContent = replace_CRLF currentContent;
          lines = String_split normalizedContent LF
      in if startLine < 1 \<or> endLine > int (length lines) \<or> startLine > endLine
         then Inl InvalidLineNumbers
         else
           let startIndex = startLine - 1;
               endIndex = endLine - 1;
               adaptedContent = replace_CRLF content;
               newLines =
                 (if startLine = endLine
                  then lines[nat startIndex :=
                         replaceSingleLine (lines ! nat startIndex) offset adaptedContent]
                  else Array_splice lines startIndex (endIndex - startIndex + 1)
                         (String_split adaptedContent LF))
           in Inr (Array_join newLines originalLineEnding))"

section \<open>Literal replace-all: the text computed by \<open>replace_specific_text\<close>\<close>

text \<open>
  \<open>escapeRegExp\<close>: \<open>string.replace(/[.*+?^${}()|[\]\\]/g, '\\$&')\<close> puts a backslash
  before each of the fourteen characters of the class.
\<close>

definition backslash :: jschar where "backslash = 0x5C"
definition dollar :: jschar where "dollar = 0x24"
definition ampersand :: jschar where "ampersand = 0x26"
definition backtick :: jschar where "backtick = 0x60"
definition apostrophe :: jschar where "apostrophe = 0x27"

definition escapedClass :: "jschar list" where
  "escapedClass = asc ''.*+?^${}()|[]'' @ [backslash]"

fun escapeRegExp :: "jsstring \<Rightarrow> jsstring" where
  "escapeRegExp [] = []"
| "escapeRegExp (c # cs) =
     (if c \<in> set escapedClass then backslash # c # escapeRegExp cs else c # escapeRegExp cs)"

text \<open>
  \<open>new RegExp(source, 'gs')\<close>, for the sources whose meaning is a fixed string: a
  sequence of pattern characters (any code unit that is not one of the fourteen syntax
  characters \<open>^ $ \ . * + ? ( ) [ ] { } |\<close>) and of identity escapes of a syntax
  character. \<open>Some lit\<close> is the string such a pattern matches, code unit by code unit
  (there is no \<open>i\<close> and no \<open>u\<close> flag). Every other source, whether a syntax error or a
  pattern with operators, is outside this fragment and gives \<open>None\<close>.
\<close>

definition isSyntaxCharacter :: "jschar \<Rightarrow> bool" where
  "isSyntaxCharacter c = (c \<in> set (asc ''^$.*+?()[]{}|'' @ [backslash]))"

fun RegExp_literal :: "jsstring \<Rightarrow> jsstring option" where
  "RegExp_literal [] = Some []"
| "RegExp_literal [c] = (if isSyntaxCharacter c then None else Some [c])"
| "RegExp_literal (c # d # r) =
     (if c = backslash
      then (if isSyntaxCharacter d then map_option ((#) d) (RegExp_literal r) else None)
      else if isSyntaxCharacter c then None
      else map_option ((#) c) (RegExp_literal (d # r)))"

text \<open>
  The matcher of a fixed-string pattern, started at \<open>lastIndex\<close>: the first index at or
  after it where the string occurs; no match once the index is past the end.
\<close>

function RegExp_exec :: "jsstring \<Rightarrow> jsstring \<Rightarrow> nat \<Rightarrow> nat option" where
  "RegExp_exec lit s lastIndex =
     (if lastIndex > length s then None
      else if prefix lit (drop lastIndex s) then Some lastIndex
      else RegExp_exec lit s (lastIndex + 1))"
  by pat_completeness auto
termination
  by (relation "measure (\<lambda>(lit, s, i). Suc (length s) - i)") auto

text \<open>\<open>regex.test(s)\<close> on a fresh regular expression (\<open>lastIndex = 0\<close>).\<close>

definition RegExp_test :: "jsstring \<Rightarrow> jsstring \<Rightarrow> bool" where
  "RegExp_test lit s = (RegExp_exec lit s 0 \<noteq> None)"

text \<open>
  The loop that \<open>s.replace(regex, ...)\<close> and \<open>s.match(regex)\<close> run for a global regular
  expression, both from \<open>lastIndex = 0\<close>: the indices of the successive matches. After
  a match the search goes on at its end, and one unit further when the match is empty.
\<close>

function matchIndices :: "jsstring \<Rightarrow> jsstring \<Rightarrow> nat \<Rightarrow> nat list" where
  "matchIndices lit s lastIndex =
     (if lastIndex > length s then []
      else if prefix lit (drop lastIndex s)
      then lastIndex # matchIndices lit s (if lit = [] then lastIndex + 1 else lastIndex + length lit)
      else matchIndices lit s (lastIndex + 1))"
  by pat_completeness auto
termination
  apply (relation "measure (\<lambda>(lit, s, i). Suc (length s) - i)")
    apply auto
  subgoal for lit s lastIndex by (cases lit) auto
  done

text \<open>
  The replacement text of one match (\<open>GetSubstitution\<close>) for a pattern without capture
  groups: \<open>$$\<close> is a dollar sign, \<open>$&\<close> the matched text, \<open>$`\<close> the text before the
  match, \<open>$'\<close> the text after it; a dollar sign before anything else stands for itself.
\<close>

fun getSubstitution :: "jsstring \<Rightarrow> jsstring \<Rightarrow> nat \<Rightarrow> jsstring \<Rightarrow> jsstring" where
  "getSubstitution matched s position [] = []"
| "getSubstitution matched s position [c] = [c]"
| "getSubstitution matched s position (c # d # r) =
     (if c = dollar \<and> d = dollar then dollar # getSubstitution matched s position r
      else if c = dollar \<and> d = ampersand then matched @ getSubstitution matched s position r
      else if c = dollar \<and> d = backtick then take position s @ getSubstitution matched s position r
      else if c = dollar \<and> d = apostrophe
      then drop (min (position + length matched) (length s)) s @ getSubstitution matched s position r
      else c # getSubstitution matched s position (d # r))"

text \<open>
  The result of \<open>s.replace(regex, replacement)\<close>, assembled from the matches: the text
  between two matches is copied, each match gives its substitution.
\<close>

fun assembleReplaced ::
  "jsstring \<Rightarrow> jsstring \<Rightarrow> jsstring \<Rightarrow> nat list \<Rightarrow> nat \<Rightarrow> jsstring" where
  "assembleReplaced s lit replacement [] nextSourcePosition = drop nextSourcePosition s"
| "assembleReplaced s lit replacement (position # rest) nextSourcePosition =
     (if position \<ge> nextSourcePosition
      then take (position - nextSourcePosition) (drop nextSourcePosition s) @
           getSubstitution lit s position replacement @
           assembleReplaced s lit replacement rest (position + length lit)
      else assembleReplaced s lit replacement rest nextSourcePosition)"

definition String_replace_global :: "jsstring \<Rightarrow> jsstring \<Rightarrow> jsstring \<Rightarrow> jsstring" where
  "String_replace_global s lit replacement =
     assembleReplaced s lit replacement (matchIndices lit s 0) 0"

text \<open>\<open>(s.match(regex) || []).length\<close>.\<close>

definition String_match_count :: "jsstring \<Rightarrow> jsstring \<Rightarrow> nat" where
  "String_match_count s lit = length (matchIndices lit s 0)"

text \<open>
  Lines 569 to 596 of \<open>ReplaceSpecificTextTool.execute\<close>: from the decoded text to the
  text written and the count reported. A regular expression that cannot be built makes
  the \<open>catch\<close> of the method answer \<open>replacement failed\<close>.
\<close>

definition replaceSpecificText ::
  "jsstring \<Rightarrow> jsstring \<Rightarrow> jsstring \<Rightarrow> editError + jsstring \<times> nat" where
  "replaceSpecificText decoded oldText newText =
     (let originalLineEnding = detectLineEnding decoded;
          currentContent = replace_CRLF_or_CR decoded;
          normalizedOldText = replace_CRLF_or_CR oldText;
          normalizedNewText = replace_CRLF_or_CR newText;
          escapedOldText = escapeRegExp normalizedOldText
      in case RegExp_literal escapedOldText of
           None \<Rightarrow> Inl ReplacementFailed
         | Some regex \<Rightarrow>
             if \<not> RegExp_test regex currentContent then Inl NoOccurrencesFound
             else
               let newContent = String_replace_global currentContent regex normalizedNewText;
                   replacementCount = String_match_count currentContent regex;
                   finalContent = replace_LF newContent originalLineEnding
               in Inr (finalContent, replacementCount))"

text \<open>
  Replace-all as the specification words it, for comparison: scan the text from the
  left; where the old text starts, put the new text and skip the old one; copy every
  other unit. An empty old text occurs before every unit and at the end.
\<close>

function spec_replaceAll :: "jsstring \<Rightarrow> jsstring \<Rightarrow> jsstring \<Rightarrow> jsstring" where
  "spec_replaceAll old new s =
     (if old = [] then new @ concat (map (\<lambda>c. c # new) s)
      else if s = [] then []
      else if prefix old s then new @ spec_replaceAll old new (drop (length old) s)
      else hd s # spec_replaceAll old new (tl s))"
  by pat_completeness auto
termination
  by (relation "measure (\<lambda>(old, new, s). length s)") auto

function spec_occurrences :: "jsstring \<Rightarrow> jsstring \<Rightarrow> nat" where
  "spec_occurrences old s =
     (if old = [] then Suc (length s)
      else if s = [] then 0
      else if prefix old s then Suc (spec_occurrences old (drop (length old) s))
      else spec_occurrences old (tl s))"
  by pat_completeness auto
termination
  by (relation "measure (\<lambda>(old, s). length s)") auto

section \<open>The response envelope\<close>

text \<open>
  A numeric argument: a finite value (every finite double is a rational), or one of
  the three values that are not finite.
\<close>

datatype number = Finite rat | NaN | PosInfinity | NegInfinity

datatype json =
    JString jsstring
  | JNumber number
  | JBoolean bool
  | JObject "(string \<times> json) list"

text \<open>
  The text of a content item is either a string the code has at hand, or the
  serialised form of a value, whose format the tools do not depend on.
\<close>

datatype contentText = Literal jsstring | Serialized json

record McpContent =
  ctype :: string
  ctext :: "contentText option"

record Response =
  content :: "McpContent list"
  isError :: "bool option"
  structuredContent :: "json option"

text \<open>
  Modelled from the spec: \<open>responseHandler.success\<close> and \<open>responseHandler.failure\<close>
  (the module \<open>server/responseHandler\<close> is not among the sources). Section 4.2:
  \<open>success(data)\<close> is a single text item carrying a serialised form of the data with
  \<open>isError = false\<close>; \<open>failure(message)\<close> is a single text item with \<open>isError = true\<close>.
\<close>

definition success :: "json \<Rightarrow> Response" where
  "success data =
     \<lparr>content = [\<lparr>ctype = ''text'', ctext = Some (Serialized data)\<rparr>],
      isError = Some False, structuredContent = None\<rparr>"

definition failure :: "jsstring \<Rightarrow> Response" where
  "failure message =
     \<lparr>content = [\<lparr>ctype = ''text'', ctext = Some (Literal message)\<rparr>],
      isError = Some True, structuredContent = None\<rparr>"

section \<open>Files, cache and deferred tasks\<close>

type_synonym path = jsstring

datatype ioError = FileNotFound | IoError

text \<open>
  The two callbacks a file-mutating tool hands to \<open>setTimeout\<close>: the outer one updates
  the cache for a path with a text and sets the inner one, which opens the file in the
  editor on behalf of the named tool.
\<close>

datatype task =
    UpdateCacheTask path jsstring jsstring
  | OpenEditorTask path jsstring

text \<open>The steps of a run that the claims speak about, in the order they happen.\<close>

datatype event =
    Wrote path jsstring
  | Built Response
  | TimerSet task
  | CacheUpdated path jsstring
  | CacheUpdateRejected path
  | ErrorLogged path
  | Invalidated path
  | OpenedInEditor path jsstring

record world =
  files :: "path \<rightharpoonup> jsstring"
  cache :: "path \<rightharpoonup> jsstring"
  timers :: "task list"
  trace :: "event list"

text \<open>
  What the run does not decide: the helpers of the base class that only format text,
  and whether an operation of the file binding or of the cache fails.
\<close>

record env =
  getRelativePath :: "path \<Rightarrow> jsstring"
  fileSystemErrorMessage :: "ioError \<Rightarrow> path \<Rightarrow> jsstring \<Rightarrow> jsstring"
  writeFails :: bool
  createDirectoryFails :: bool
  updateCacheFails :: bool

record writeOptions =
  checkExists :: bool
  mustExist :: bool
  skipCacheUpdate :: bool

text \<open>
  Modelled from the spec: the helpers of \<open>AbsFileTools\<close> (the module
  \<open>types/absFileTools\<close> is not among the sources). Section 6 gives the file binding as
  \<open>readText(path) -> text | DecodeError\<close> and
  \<open>writeText(path, text, {mustExist, createIfAbsent}) -> ok | NotFoundError | IoError\<close>;
  Section 4.3 gives the cached read: the cached text when there is one, otherwise the
  text of the store, which is then cached; Section 7 says that an error of the store is
  turned into a failure envelope at the handler boundary. A write that is not told to
  skip the cache stores the text there too.
\<close>

definition fileExists :: "world \<Rightarrow> path \<Rightarrow> bool" where
  "fileExists w p = (files w p \<noteq> None)"

definition readFile :: "world \<Rightarrow> path \<Rightarrow> ioError + jsstring" where
  "readFile w p = (case files w p of None \<Rightarrow> Inl FileNotFound | Some t \<Rightarrow> Inr t)"

definition getFileContent :: "world \<Rightarrow> path \<Rightarrow> (ioError + jsstring) \<times> world" where
  "getFileContent w p =
     (case cache w p of
        Some t \<Rightarrow> (Inr t, w)
      | None \<Rightarrow>
          (case files w p of
             None \<Rightarrow> (Inl FileNotFound, w)
           | Some t \<Rightarrow> (Inr t, w\<lparr>cache := (cache w)(p \<mapsto> t)\<rparr>)))"

definition writeFileSimple ::
  "env \<Rightarrow> world \<Rightarrow> path \<Rightarrow> jsstring \<Rightarrow> writeOptions \<Rightarrow> ioError + world" where
  "writeFileSimple e w p t opts =
     (if checkExists opts \<and> mustExist opts \<and> files w p = None then Inl FileNotFound
      else if writeFails e then Inl IoError
      else Inr (w\<lparr>files := (files w)(p \<mapsto> t),
                  cache := (if skipCacheUpdate opts then cache w else (cache w)(p \<mapsto> t)),
                  trace := trace w @ [Wrote p t]\<rparr>))"

definition handleFileSystemError :: "env \<Rightarrow> ioError \<Rightarrow> path \<Rightarrow> jsstring \<Rightarrow> Response" where
  "handleFileSystemError e err p operation = failure (fileSystemErrorMessage e err p operation)"

text \<open>
  Modelled from the spec: \<open>adaptLineEndings\<close> of \<open>AbsFileTools\<close>. Section 4.4, item 3:
  the internal line endings of the appended content are rewritten to the dominant style
  of the existing text (CRLF if it has a CRLF, else LF).
\<close>

definition adaptLineEndings :: "jsstring \<Rightarrow> jsstring \<Rightarrow> jsstring" where
  "adaptLineEndings existingContent newContent =
     replace_LF (replace_CRLF newContent) (detectLineEnding existingContent)"

text \<open>
  Steps 2 to 4 of every file-mutating tool, which the source repeats in each of them:
  the response is built, \<open>setTimeout\<close> queues the outer callback, the response is
  returned.
\<close>

definition respondThenDefer :: "world \<Rightarrow> Response \<Rightarrow> task \<Rightarrow> Response \<times> world" where
  "respondThenDefer w response t =
     (response, w\<lparr>timers := timers w @ [t], trace := trace w @ [Built response, TimerSet t]\<rparr>)"

text \<open>
  One turn of the timer queue. The outer callback calls \<open>FileCache.updateCache\<close> and
  sets the inner timer; when the update is rejected, its \<open>catch\<close> logs the error and
  calls \<open>FileCache.invalidate\<close> (Section 4.3: the entry is removed unconditionally).
\<close>

fun runTask :: "env \<Rightarrow> task \<Rightarrow> world \<Rightarrow> world" where
  "runTask e (UpdateCacheTask p t tool) w =
     (if updateCacheFails e
      then w\<lparr>cache := (cache w)(p := None),
              timers := timers w @ [OpenEditorTask p tool],
              trace := trace w @ [CacheUpdateRejected p, TimerSet (OpenEditorTask p tool),
                                  ErrorLogged p, Invalidated p]\<rparr>
      else w\<lparr>cache := (cache w)(p \<mapsto> t),
              timers := timers w @ [OpenEditorTask p tool],
              trace := trace w @ [CacheUpdated p t, TimerSet (OpenEditorTask p tool)]\<rparr>)"
| "runTask e (OpenEditorTask p tool) w = w\<lparr>trace := trace w @ [OpenedInEditor p tool]\<rparr>"

definition runNextTimer :: "env \<Rightarrow> world \<Rightarrow> world" where
  "runNextTimer e w =
     (case timers w of
        [] \<Rightarrow> w
      | t # ts \<Rightarrow> runTask e t (w\<lparr>timers := ts\<rparr>))"

section \<open>The file tools\<close>

definition sizeOf :: "jsstring \<Rightarrow> json" where
  "sizeOf t = JNumber (Finite (of_nat (length t)))"

definition RewriteFileContentTool_execute ::
  "env \<Rightarrow> world \<Rightarrow> path \<Rightarrow> jsstring \<Rightarrow> Response \<times> world" where
  "RewriteFileContentTool_execute e w absolutePath txt =
     (case writeFileSimple e w absolutePath txt
             \<lparr>checkExists = True, mustExist = True, skipCacheUpdate = True\<rparr> of
        Inl err \<Rightarrow> (handleFileSystemError e err absolutePath (asc ''rewriting''), w)
      | Inr w1 \<Rightarrow>
          respondThenDefer w1
            (success (JObject [(''pathInProject'', JString (getRelativePath e absolutePath)),
                               (''size'', sizeOf txt)]))
            (UpdateCacheTask absolutePath txt (asc ''rewrite_file_content'')))"

definition CreateNewFileWithTextTool_execute ::
  "env \<Rightarrow> world \<Rightarrow> path \<Rightarrow> jsstring \<Rightarrow> Response \<times> world" where
  "CreateNewFileWithTextTool_execute e w absolutePath txt =
     (if createDirectoryFails e
      then (handleFileSystemError e IoError absolutePath (asc ''creating''), w)
      else
        case writeFileSimple e w absolutePath txt
               \<lparr>checkExists = True, mustExist = False, skipCacheUpdate = True\<rparr> of
          Inl err \<Rightarrow> (handleFileSystemError e err absolutePath (asc ''creating''), w)
        | Inr w1 \<Rightarrow>
            respondThenDefer w1
              (success (JObject [(''pathInProject'', JString (getRelativePath e absolutePath))]))
              (UpdateCacheTask absolutePath txt (asc ''create_new_file_with_text'')))"

definition ReplaceFileContentAtPositionTool_execute ::
  "env \<Rightarrow> world \<Rightarrow> path \<Rightarrow> int \<Rightarrow> int \<Rightarrow> jsstring \<Rightarrow> int option \<Rightarrow> Response \<times> world" where
  "ReplaceFileContentAtPositionTool_execute e w absolutePath startLine endLine cnt offsetArg =
     (let offset = (case offsetArg of None \<Rightarrow> 0 | Some n \<Rightarrow> n)
      in case readFile w absolutePath of
           Inl err \<Rightarrow>
             (handleFileSystemError e err absolutePath (asc ''replacing content in''), w)
         | Inr currentContent \<Rightarrow>
             (case replaceAtPosition currentContent startLine endLine cnt offset of
                Inl _ \<Rightarrow> (failure (asc ''Invalid line numbers''), w)
              | Inr newContent \<Rightarrow>
                  (case writeFileSimple e w absolutePath newContent
                          \<lparr>checkExists = True, mustExist = True, skipCacheUpdate = True\<rparr> of
                     Inl err \<Rightarrow>
                       (handleFileSystemError e err absolutePath
                          (asc ''replacing content in''), w)
                   | Inr w1 \<Rightarrow>
                       respondThenDefer w1 (success (JString (asc ''ok'')))
                         (UpdateCacheTask absolutePath newContent
                            (asc ''replace_file_content_at_position'')))))"

definition AppendFileContentTool_execute ::
  "env \<Rightarrow> world \<Rightarrow> path \<Rightarrow> jsstring \<Rightarrow> Response \<times> world" where
  "AppendFileContentTool_execute e w absolutePath cnt =
     (if \<not> fileExists w absolutePath then (failure (asc ''File does not exist''), w)
      else
        case readFile w absolutePath of
          Inl err \<Rightarrow> (handleFileSystemError e err absolutePath (asc ''appending to''), w)
        | Inr existingContent \<Rightarrow>
            (let adaptedContent = adaptLineEndings existingContent cnt;
                 newContent = existingContent @ adaptedContent
             in case writeFileSimple e w absolutePath newContent
                       \<lparr>checkExists = True, mustExist = True, skipCacheUpdate = True\<rparr> of
                  Inl err \<Rightarrow>
                    (handleFileSystemError e err absolutePath (asc ''appending to''), w)
                | Inr w1 \<Rightarrow>
                    respondThenDefer w1
                      (success (JObject
                         [(''pathInProject'', JString (getRelativePath e absolutePath)),
                          (''size'', sizeOf newContent)]))
                      (UpdateCacheTask absolutePath newContent (asc ''append_file_content''))))"

text \<open>
  \<open>ReplaceSpecificTextTool.execute\<close> reads the bytes itself, with
  \<open>vscode.workspace.fs.readFile\<close>, and decodes them with \<open>new TextDecoder().decode\<close>.
  The store holds a file as the text its bytes stand for, a byte order mark included
  (the unit U+FEFF at the front); the decoder drops a leading byte order mark, and the
  text written back has none.
\<close>

definition byteOrderMark :: jschar where "byteOrderMark = 0xFEFF"

definition fs_readFile :: "world \<Rightarrow> path \<Rightarrow> ioError + jsstring" where
  "fs_readFile w p = (case files w p of None \<Rightarrow> Inl FileNotFound | Some fileData \<Rightarrow> Inr fileData)"

fun TextDecoder_decode :: "jsstring \<Rightarrow> jsstring" where
  "TextDecoder_decode [] = []"
| "TextDecoder_decode (c # r) = (if c = byteOrderMark then r else c # r)"

definition ReplaceSpecificTextTool_execute ::
  "env \<Rightarrow> world \<Rightarrow> path \<Rightarrow> jsstring \<Rightarrow> jsstring \<Rightarrow> Response \<times> world" where
  "ReplaceSpecificTextTool_execute e w absolutePath oldText newText =
     (case fs_readFile w absolutePath of
        Inl err \<Rightarrow> (failure (asc ''replacement failed''), w)
      | Inr fileData \<Rightarrow>
          (case replaceSpecificText (TextDecoder_decode fileData) oldText newText of
             Inl NoOccurrencesFound \<Rightarrow> (failure (asc ''no occurrences found''), w)
           | Inl _ \<Rightarrow> (failure (asc ''replacement failed''), w)
           | Inr (finalContent, replacementCount) \<Rightarrow>
               (case writeFileSimple e w absolutePath finalContent
                       \<lparr>checkExists = True, mustExist = True, skipCacheUpdate = True\<rparr> of
                  Inl err \<Rightarrow> (failure (asc ''replacement failed''), w)
                | Inr w1 \<Rightarrow>
                    respondThenDefer w1
                      (success (JObject
                         [(''pathInProject'', JString (getRelativePath e absolutePath)),
                          (''replacedCount'', JNumber (Finite (of_nat replacementCount)))]))
                      (UpdateCacheTask absolutePath finalContent
                         (asc ''replace_specific_text'')))))"

text \<open>
  \<open>Defaults.Limits.maxFileReadCharacters\<close> and \<open>GetFileTextByPathTool.execute\<close>.
  \<open>toLowerCase\<close> is modelled on the ASCII letters and leaves every other unit alone; its
  result is only compared with \<open>utf-8\<close> and \<open>utf8\<close>, and no unit outside ASCII
  lower-cases into a character of these two names. \<open>text.slice(0, n)\<close> truncates \<open>n\<close>
  to an integer.
\<close>

definition maxFileReadCharacters :: rat where
  "maxFileReadCharacters = 100000"

definition toLowerCase :: "jsstring \<Rightarrow> jsstring" where
  "toLowerCase s = map (\<lambda>c. if 0x41 \<le> c \<and> c \<le> 0x5A then c + 0x20 else c) s"

definition effectiveMaxCharacters :: "number option \<Rightarrow> rat" where
  "effectiveMaxCharacters maxCharacters =
     (case maxCharacters of
        Some (Finite q) \<Rightarrow> if q > 0 then q else maxFileReadCharacters
      | _ \<Rightarrow> maxFileReadCharacters)"

definition GetFileTextByPathTool_execute ::
  "env \<Rightarrow> world \<Rightarrow> path \<Rightarrow> jsstring option \<Rightarrow> number option \<Rightarrow> Response \<times> world" where
  "GetFileTextByPathTool_execute e w absolutePath encoding maxCharacters =
     (if (case encoding of
            None \<Rightarrow> False
          | Some enc \<Rightarrow> enc \<noteq> [] \<and> toLowerCase enc \<noteq> asc ''utf-8''
                        \<and> toLowerCase enc \<noteq> asc ''utf8'')
      then (failure (asc ''Only 'utf-8' encoding is currently supported for get_file_text_by_path''), w)
      else
        case getFileContent w absolutePath of
          (Inl err, w1) \<Rightarrow> (handleFileSystemError e err absolutePath (asc ''reading''), w1)
        | (Inr fullText, w1) \<Rightarrow>
            (let originalLength = length fullText;
                 effectiveMax = effectiveMaxCharacters maxCharacters;
                 truncated = (of_nat (length fullText) > effectiveMax);
                 txt = (if truncated then String_slice0 fullText (nat \<lfloor>effectiveMax\<rfloor>)
                        else fullText);
                 structured = JObject
                   [(''pathInProject'', JString (getRelativePath e absolutePath)),
                    (''encoding'', JString (asc ''utf-8'')),
                    (''content'', JString txt),
                    (''truncated'', JBoolean truncated),
                    (''length'', JNumber (Finite (of_nat (length txt)))),
                    (''totalLength'', JNumber (Finite (of_nat originalLength))),
                    (''maxCharacters'', JNumber (Finite effectiveMax))]
             in (\<lparr>content = [\<lparr>ctype = ''text'', ctext = Some (Literal txt)\<rparr>],
                  isError = Some False,
                  structuredContent = Some structured\<rparr>, w1)))"

text \<open>The field of a structured content object, as a client reads it.\<close>

fun field :: "json option \<Rightarrow> string \<Rightarrow> json option" where
  "field (Some (JObject kvs)) k = map_of kvs k"
| "field _ k = None"

text \<open>The five file-mutating tools behind one entry, each with its own arguments.\<close>

datatype mutatingCall =
    RewriteFileContent jsstring
  | CreateNewFileWithText jsstring
  | ReplaceFileContentAtPosition int int jsstring "int option"
  | AppendFileContent jsstring
  | ReplaceSpecificText jsstring jsstring

fun executeMutating :: "env \<Rightarrow> world \<Rightarrow> path \<Rightarrow> mutatingCall \<Rightarrow> Response \<times> world" where
  "executeMutating e w p (RewriteFileContent txt) = RewriteFileContentTool_execute e w p txt"
| "executeMutating e w p (CreateNewFileWithText txt) = CreateNewFileWithTextTool_execute e w p txt"
| "executeMutating e w p (ReplaceFileContentAtPosition startLine endLine cnt offsetArg) =
     ReplaceFileContentAtPositionTool_execute e w p startLine endLine cnt offsetArg"
| "executeMutating e w p (AppendFileContent cnt) = AppendFileContentTool_execute e w p cnt"
| "executeMutating e w p (ReplaceSpecificText oldText newText) =
     ReplaceSpecificTextTool_execute e w p oldText newText"

fun toolNameOf :: "mutatingCall \<Rightarrow> jsstring" where
  "toolNameOf (RewriteFileContent _) = asc ''rewrite_file_content''"
| "toolNameOf (CreateNewFileWithText _) = asc ''create_new_file_with_text''"
| "toolNameOf (ReplaceFileContentAtPosition _ _ _ _) = asc ''replace_file_content_at_position''"
| "toolNameOf (AppendFileContent _) = asc ''append_file_content''"
| "toolNameOf (ReplaceSpecificText _ _) = asc ''replace_specific_text''"

section \<open>The request handler\<close>

text \<open>What a \<open>throw\<close> carries: an \<open>Error\<close> with its message, or any other value.\<close>

datatype thrown = Error jsstring | NonError

record 'p RequestContext =
  toolName :: jsstring
  params :: 'p
  httpMethod :: jsstring
  requestPath :: jsstring
  cachedResponse :: "Response option"

record ResponseContext =
  response :: Response
  statusCode :: nat

text \<open>
  A tool and the interceptor chain act on a state of their own (\<open>'s\<close>) and either
  return or throw. The chain (module \<open>server/interceptors\<close>) is a parameter of the
  request handler: its before-phase returns a context or \<open>null\<close>.
\<close>

record ('p, 's) McpTool =
  name :: jsstring
  handle :: "'p \<Rightarrow> 's \<Rightarrow> (thrown + Response) \<times> 's"

record ('p, 's) InterceptorChain =
  processBeforeRequest :: "'p RequestContext \<Rightarrow> 's \<Rightarrow> (thrown + 'p RequestContext option) \<times> 's"
  processAfterResponse ::
    "'p RequestContext \<Rightarrow> ResponseContext \<Rightarrow> 's \<Rightarrow> (thrown + ResponseContext) \<times> 's"

text \<open>
  The server side of one request: the state of tools and interceptors, what has been
  written to the HTTP response (status and body), and the handlers invoked, in order.
\<close>

record ('p, 's) server =
  st :: 's
  sent :: "(nat \<times> Response) list"
  invoked :: "(jsstring \<times> 'p) list"

definition thrownMessage :: "thrown \<Rightarrow> jsstring" where
  "thrownMessage err = (case err of Error m \<Rightarrow> m | NonError \<Rightarrow> asc ''Unknown error'')"

text \<open>
  Modelled from the spec: \<open>sendJsonResponse\<close>, \<open>sendResponse\<close> and \<open>handleServerError\<close>
  of \<open>responseHandler\<close>. The first two write the status and the body; Sections 4.6 and 7
  say that an error caught by the request handler is converted into a failure envelope
  (the status 500 and the wording of the message are the model's).
\<close>

definition sendJsonResponse :: "('p, 's) server \<Rightarrow> nat \<Rightarrow> Response \<Rightarrow> ('p, 's) server" where
  "sendJsonResponse srv status body = srv\<lparr>sent := sent srv @ [(status, body)]\<rparr>"

definition sendResponse :: "('p, 's) server \<Rightarrow> ResponseContext \<Rightarrow> ('p, 's) server" where
  "sendResponse srv rc = srv\<lparr>sent := sent srv @ [(statusCode rc, response rc)]\<rparr>"

definition handleServerError :: "('p, 's) server \<Rightarrow> thrown \<Rightarrow> jsstring \<Rightarrow> ('p, 's) server" where
  "handleServerError srv err message =
     sendJsonResponse srv 500 (failure (message @ asc '': '' @ thrownMessage err))"

definition handleToolExecution ::
  "(jsstring \<rightharpoonup> ('p, 's) McpTool) \<Rightarrow> ('p, 's) InterceptorChain \<Rightarrow>
   jsstring \<Rightarrow> 'p \<Rightarrow> jsstring \<Rightarrow> jsstring \<Rightarrow> ('p, 's) server \<Rightarrow> ('p, 's) server" where
  "handleToolExecution toolManager chain tn ps m pth srv =
     (case toolManager tn of
        None \<Rightarrow> sendJsonResponse srv 404 (failure (asc ''Unknown tool: '' @ tn))
      | Some tool \<Rightarrow>
          (let requestContext =
                 \<lparr>toolName = tn, params = ps, httpMethod = m, requestPath = pth,
                  cachedResponse = None\<rparr>
           in case processBeforeRequest chain requestContext (st srv) of
                (Inl err, s1) \<Rightarrow>
                  handleServerError (srv\<lparr>st := s1\<rparr>) err (asc ''Error executing tool '' @ tn)
              | (Inr None, s1) \<Rightarrow>
                  sendJsonResponse (srv\<lparr>st := s1\<rparr>) 200
                    (failure (asc ''Request cancelled by interceptor''))
              | (Inr (Some processedContext), s1) \<Rightarrow>
                  (case cachedResponse processedContext of
                     Some cached \<Rightarrow> sendJsonResponse (srv\<lparr>st := s1\<rparr>) 200 cached
                   | None \<Rightarrow>
                       (case handle tool ps s1 of
                          (Inl err, s2) \<Rightarrow>
                            handleServerError
                              (srv\<lparr>st := s2, invoked := invoked srv @ [(tn, ps)]\<rparr>) err
                              (asc ''Error executing tool '' @ tn)
                        | (Inr result, s2) \<Rightarrow>
                            (case processAfterResponse chain processedContext
                                    \<lparr>response = result, statusCode = 200\<rparr> s2 of
                               (Inl err, s3) \<Rightarrow>
                                 handleServerError
                                   (srv\<lparr>st := s3, invoked := invoked srv @ [(tn, ps)]\<rparr>) err
                                   (asc ''Error executing tool '' @ tn)
                             | (Inr responseContext, s3) \<Rightarrow>
                                 sendResponse
                                   (srv\<lparr>st := s3, invoked := invoked srv @ [(tn, ps)]\<rparr>)
                                   responseContext)))))"

text \<open>
  \<open>executeToolDirect\<close>: the result is the envelope the promise resolves to, with the
  state and the handlers invoked.
\<close>

definition executeToolDirect ::
  "(jsstring \<rightharpoonup> ('p, 's) McpTool) \<Rightarrow> jsstring \<Rightarrow> 'p \<Rightarrow> 's \<Rightarrow>
   Response \<times> 's \<times> (jsstring \<times> 'p) list" where
  "executeToolDirect toolManager tn args s =
     (case toolManager tn of
        None \<Rightarrow> (failure (asc ''Unknown tool: '' @ tn), s, [])
      | Some tool \<Rightarrow>
          (case handle tool args s of
             (Inr result, s1) \<Rightarrow> (result, s1, [(tn, args)])
           | (Inl err, s1) \<Rightarrow> (failure (thrownMessage err), s1, [(tn, args)])))"

section \<open>Notions used to state the line-ending claims\<close>

text \<open>
  A text has a bare LF when, scanning from the left and skipping every CRLF pair, an LF
  is met: a line break that is not a CRLF.
\<close>

fun hasBareLF :: "jsstring \<Rightarrow> bool" where
  "hasBareLF (c # d # r) = (if c = CR \<and> d = LF then hasBareLF r else c = LF \<or> hasBareLF (d # r))"
| "hasBareLF [c] = (c = LF)"
| "hasBareLF [] = False"

text \<open>A line ends with a CR: joined to the next line with an LF it makes a CRLF.\<close>

definition endsCR :: "jsstring \<Rightarrow> bool" where
  "endsCR l = (l \<noteq> [] \<and> last l = CR)"

text \<open>
  The array of lines of \<open>replaceAtPosition\<close> just before the join, for a valid range,
  with \<open>splice\<close> written out as what it leaves in the array.
\<close>

definition editedLines :: "jsstring \<Rightarrow> int \<Rightarrow> int \<Rightarrow> jsstring \<Rightarrow> int \<Rightarrow> jsstring list" where
  "editedLines cur a b cnt off =
     (let lines = String_split (replace_CRLF cur) LF in
      if a = b
      then lines[nat (a - 1) := replaceSingleLine (lines ! nat (a - 1)) off (replace_CRLF cnt)]
      else take (nat (a - 1)) lines @ String_split (replace_CRLF cnt) LF @ drop (nat b) lines)"

text \<open>
  The same splice on an array of lines given as such: the single-line branch and the
  multi-line branch of \<open>replaceAtPosition\<close>, for a valid range.
\<close>

definition spliceLines :: "jsstring list \<Rightarrow> int \<Rightarrow> int \<Rightarrow> jsstring \<Rightarrow> int \<Rightarrow> jsstring list" where
  "spliceLines lines a b cnt off =
     (if a = b
      then lines[nat (a - 1) := replaceSingleLine (lines ! nat (a - 1)) off (replace_CRLF cnt)]
      else take (nat (a - 1)) lines @ String_split (replace_CRLF cnt) LF @ drop (nat b) lines)"

section \<open>When a file-mutating tool succeeds\<close>

text \<open>
  The conditions under which each of the five tools gets past its reads, its checks
  and its write: the file is there (but for the creation of a file), the range is valid
  or the old text occurs, and the file binding does not fail.
\<close>

fun mutationSucceeds :: "env \<Rightarrow> world \<Rightarrow> path \<Rightarrow> mutatingCall \<Rightarrow> bool" where
  "mutationSucceeds e w p (RewriteFileContent t) = (files w p \<noteq> None \<and> \<not> writeFails e)"
| "mutationSucceeds e w p (CreateNewFileWithText t) =
     (\<not> createDirectoryFails e \<and> \<not> writeFails e)"
| "mutationSucceeds e w p (ReplaceFileContentAtPosition startLine endLine cnt offsetArg) =
     (case files w p of
        None \<Rightarrow> False
      | Some cur \<Rightarrow>
          1 \<le> startLine \<and> startLine \<le> endLine
          \<and> endLine \<le> int (length (String_split (replace_CRLF cur) LF))
          \<and> \<not> writeFails e)"
| "mutationSucceeds e w p (AppendFileContent cnt) = (files w p \<noteq> None \<and> \<not> writeFails e)"
| "mutationSucceeds e w p (ReplaceSpecificText oldText newText) =
     (case files w p of
        None \<Rightarrow> False
      | Some fileData \<Rightarrow>
          String_includes (replace_CRLF_or_CR (TextDecoder_decode fileData))
            (replace_CRLF_or_CR oldText)
          \<and> \<not> writeFails e)"

section \<open>Sample inputs\<close>

definition samplePath :: path where
  "samplePath = asc ''/project/notes.txt''"

definition sampleEnv :: env where
  "sampleEnv = \<lparr>getRelativePath = (\<lambda>p. drop 9 p),
                 fileSystemErrorMessage = (\<lambda>err p operation. asc ''Error '' @ operation @ asc '' file''),
                 writeFails = False, createDirectoryFails = False, updateCacheFails = False\<rparr>"

definition sampleWorld :: "jsstring \<Rightarrow> world" where
  "sampleWorld t = \<lparr>files = [samplePath \<mapsto> t], cache = Map.empty, timers = [], trace = []\<rparr>"

definition cachedWorld :: "jsstring \<Rightarrow> world" where
  "cachedWorld t = \<lparr>files = [samplePath \<mapsto> t], cache = [samplePath \<mapsto> t], timers = [],
                     trace = []\<rparr>"

definition echoTool :: "(unit, nat) McpTool" where
  "echoTool = \<lparr>name = asc ''echo'', handle = (\<lambda>_ s. (Inr (success (JBoolean True)), Suc s))\<rparr>"

definition throwingTool :: "(unit, nat) McpTool" where
  "throwingTool = \<lparr>name = asc ''boom'', handle = (\<lambda>_ s. (Inl (Error (asc ''disk full'')), Suc s))\<rparr>"

definition cancellingChain :: "(unit, nat) InterceptorChain" where
  "cancellingChain = \<lparr>processBeforeRequest = (\<lambda>c s. (Inr None, s)),
                       processAfterResponse = (\<lambda>c r s. (Inr r, s))\<rparr>"

definition passingChain :: "(unit, nat) InterceptorChain" where
  "passingChain = \<lparr>processBeforeRequest = (\<lambda>c s. (Inr (Some c), s)),
                    processAfterResponse = (\<lambda>c r s. (Inr r, s))\<rparr>"

definition sampleServer :: "(unit, nat) server" where
  "sampleServer = \<lparr>st = 0, sent = [], invoked = []\<rparr>"

section \<open>Basic facts about the string operations\<close>

lemma String_substring_0: "String_substring s 0 n = take (nat n) s"
  by (auto simp: String_substring_def Let_def min_def max_def)

lemma String_substring_from_drop: "String_substring_from s n = drop (nat n) s"
  by (auto simp: String_substring_from_def Let_def min_def max_def)

lemma replaceSingleLine_take_drop:
  "replaceSingleLine l offset a = take (nat offset) l @ a @ drop (nat (offset + int (length a))) l"
  by (simp add: replaceSingleLine_def String_substring_0 String_substring_from_drop)

lemma isError_failure: "isError (failure m) = Some True"
  by (simp add: failure_def)

lemma isError_handleFileSystemError: "isError (handleFileSystemError e err p operation) = Some True"
  by (simp add: handleFileSystemError_def failure_def)

section \<open>Single-line replacement (C2)\<close>

text \<open>
  Claim C2. For a text, a 1-based line number \<open>n\<close> within the lines of the
  LF-normalised text, used as both start and end line, any offset and any replacement:
  range replace succeeds, and the text it produces is the lines of the normalised text,
  joined with the detected line ending, where line \<open>n\<close> has become the first
  \<open>offset\<close> units of the original line, then the (LF-normalised) replacement, then the
  units of the original line from index \<open>offset + length replacement\<close> on. When that
  window lies within the line, the new line is as long as the old one and agrees with
  it at every index past the window: the trailing text does not move.
\<close>

theorem single_line_replace_overwrites_window:
  assumes "lines = String_split (replace_CRLF currentContent) LF"
      and "1 \<le> n" and "n \<le> int (length lines)"
      and "adapted = replace_CRLF cnt"
      and "line = lines ! nat (n - 1)"
      and "newLine = take (nat offset) line @ adapted @ drop (nat (offset + int (length adapted))) line"
  shows "replaceAtPosition currentContent n n cnt offset =
           Inr (Array_join (lines[nat (n - 1) := newLine]) (detectLineEnding currentContent))
       \<and> (0 \<le> offset \<and> offset + int (length adapted) \<le> int (length line) \<longrightarrow>
            length newLine = length line
          \<and> (\<forall>j. nat offset + length adapted \<le> j \<and> j < length line \<longrightarrow> newLine ! j = line ! j))"
proof -
  have "replaceAtPosition currentContent n n cnt offset =
           Inr (Array_join (lines[nat (n - 1) := newLine]) (detectLineEnding currentContent))"
    using assms by (simp add: replaceAtPosition_def Let_def replaceSingleLine_take_drop)
  moreover have "length newLine = length line
          \<and> (\<forall>j. nat offset + length adapted \<le> j \<and> j < length line \<longrightarrow> newLine ! j = line ! j)"
    if "0 \<le> offset" "offset + int (length adapted) \<le> int (length line)"
  proof -
    from that have a: "nat offset + length adapted \<le> length line" by linarith
    have n: "nat (offset + int (length adapted)) = nat offset + length adapted"
      using that by (simp add: nat_add_distrib)
    have "length newLine = length line" using a assms(6) n by simp
    moreover have "newLine ! j = line ! j"
      if "nat offset + length adapted \<le> j" "j < length line" for j
    proof -
      have "newLine ! j = (adapted @ drop (nat offset + length adapted) line) ! (j - nat offset)"
        using that a assms(6) n by (simp add: nth_append)
      also have "\<dots> = drop (nat offset + length adapted) line ! (j - nat offset - length adapted)"
      proof -
        have "\<not> j - nat offset < length adapted" using that by linarith
        then show ?thesis by (simp add: nth_append)
      qed
      also have "\<dots> = line ! j" using that a by simp
      finally show ?thesis .
    qed
    ultimately show ?thesis by blast
  qed
  ultimately show ?thesis by blast
qed

theorem single_line_replace_overwrites_window_witness:
  "replaceAtPosition (asc ''one'' @ [LF] @ asc ''hello world'') 2 2 (asc ''XY'') 2 =
     Inr (asc ''one'' @ [LF] @ asc ''heXYo world'')
   \<and> length (asc ''heXYo world'') = length (asc ''hello world'')"
proof -
  have l: "String_split (replace_CRLF (asc ''one'' @ [LF] @ asc ''hello world'')) LF
             = [asc ''one'', asc ''hello world'']"
    by (simp add: asc_def LF_def CR_def)
  have d: "detectLineEnding (asc ''one'' @ [LF] @ asc ''hello world'') = [LF]"
    by (simp add: detectLineEnding_def asc_def LF_def CR_def CRLF_def)
  have a: "replace_CRLF (asc ''XY'') = asc ''XY''" by (simp add: asc_def LF_def CR_def)
  from single_line_replace_overwrites_window[OF l[symmetric] _ _ a[symmetric] refl refl,
         where n = 2 and offset = 2]
  show ?thesis using d by (simp add: asc_def)
qed

section \<open>Cancellation by the interceptor chain (C4)\<close>

text \<open>
  Claim C4 as stated fails for the requests that enter through \<open>executeToolDirect\<close>:
  that entry point has no interceptor chain, so under a chain whose before-phase
  cancels every request the handler of a registered tool is still invoked and its
  result returned.
\<close>

theorem direct_execution_ignores_cancellation:
  "processBeforeRequest cancellingChain
      \<lparr>toolName = asc ''echo'', params = (), httpMethod = asc ''POST'',
       requestPath = asc ''/mcp/echo'', cachedResponse = None\<rparr> 0 = (Inr None, 0)
   \<and> executeToolDirect [asc ''echo'' \<mapsto> echoTool] (asc ''echo'') () 0
       = (success (JBoolean True), 1, [(asc ''echo'', ())])"
  by (simp add: cancellingChain_def executeToolDirect_def echoTool_def)

text \<open>
  Claim C4, as amended. For every tool invocation through \<open>handleToolExecution\<close>:
  for a registered tool, when the before-phase of the interceptor chain returns
  \<open>null\<close>, no tool handler is invoked and one response is sent, status 200 with the
  failure envelope \<open>Request cancelled by interceptor\<close>; and a handler is invoked only
  if the tool is registered and the before-phase returned a context that carries no
  cached response, and then once. An invocation through \<open>executeToolDirect\<close> runs no
  before-phase: the handler of a registered tool is invoked once, whatever the chain.
\<close>

theorem cancellation_prevents_handler:
  fixes toolManager :: "jsstring \<rightharpoonup> ('p, 's) McpTool"
  assumes "requestContext = \<lparr>toolName = tn, params = ps, httpMethod = m, requestPath = pth,
                             cachedResponse = None\<rparr>"
      and "result = handleToolExecution toolManager chain tn ps m pth srv"
  shows "(toolManager tn = Some tool
          \<and> processBeforeRequest chain requestContext (st srv) = (Inr None, s1)
           \<longrightarrow> invoked result = invoked srv
             \<and> sent result = sent srv @ [(200, failure (asc ''Request cancelled by interceptor''))]
             \<and> isError (failure (asc ''Request cancelled by interceptor'')) = Some True
             \<and> st result = s1)
       \<and> (invoked result \<noteq> invoked srv
           \<longrightarrow> (\<exists>tool processedContext s1.
                  toolManager tn = Some tool
                \<and> processBeforeRequest chain requestContext (st srv)
                    = (Inr (Some processedContext), s1)
                \<and> cachedResponse processedContext = None
                \<and> invoked result = invoked srv @ [(tn, ps)]))
       \<and> (toolManager tn = Some tool
           \<longrightarrow> snd (snd (executeToolDirect toolManager tn ps s)) = [(tn, ps)]
             \<and> fst (snd (executeToolDirect toolManager tn ps s)) = snd (handle tool ps s))"
  using assms
  by (auto simp: handleToolExecution_def sendJsonResponse_def sendResponse_def
        handleServerError_def failure_def executeToolDirect_def Let_def
        split: option.splits sum.splits prod.splits)

theorem cancellation_prevents_handler_witness:
  "invoked (handleToolExecution [asc ''echo'' \<mapsto> echoTool] cancellingChain (asc ''echo'') ()
              (asc ''POST'') (asc ''/mcp/echo'') sampleServer) = []
 \<and> sent (handleToolExecution [asc ''echo'' \<mapsto> echoTool] cancellingChain (asc ''echo'') ()
              (asc ''POST'') (asc ''/mcp/echo'') sampleServer)
     = [(200, failure (asc ''Request cancelled by interceptor''))]
 \<and> invoked (handleToolExecution [asc ''echo'' \<mapsto> echoTool] passingChain (asc ''echo'') ()
              (asc ''POST'') (asc ''/mcp/echo'') sampleServer) = [(asc ''echo'', ())]
 \<and> snd (snd (executeToolDirect [asc ''echo'' \<mapsto> echoTool] (asc ''echo'') () 0))
     = [(asc ''echo'', ())]"
  using cancellation_prevents_handler[OF refl refl,
          where toolManager = "[asc ''echo'' \<mapsto> echoTool]" and tn = "asc ''echo''"
            and tool = echoTool and chain = cancellingChain and ps = "()"
            and m = "asc ''POST''" and pth = "asc ''/mcp/echo''" and srv = sampleServer
            and ?s1.0 = 0 and s = 0]
        cancellation_prevents_handler[OF refl refl,
          where toolManager = "[asc ''echo'' \<mapsto> echoTool]" and tn = "asc ''echo''"
            and tool = echoTool and chain = passingChain and ps = "()"
            and m = "asc ''POST''" and pth = "asc ''/mcp/echo''" and srv = sampleServer
            and ?s1.0 = 0 and s = 0]
  by (simp add: cancellingChain_def passingChain_def echoTool_def sampleServer_def
        handleToolExecution_def sendResponse_def)

section \<open>Range validation (C5)\<close>

text \<open>
  Claim C5. For a file that can be read, whenever the start line is below 1, or the end
  line exceeds the number of lines of the LF-normalised current text, or the start line
  is above the end line, \<open>replace_file_content_at_position\<close> answers the failure
  envelope \<open>Invalid line numbers\<close> and leaves the world as it was: no write, no cache
  change, no timer.
\<close>

theorem invalid_range_fails_before_write:
  assumes "files w p = Some currentContent"
      and "startLine < 1
           \<or> endLine > int (length (String_split (replace_CRLF currentContent) LF))
           \<or> startLine > endLine"
  shows "ReplaceFileContentAtPositionTool_execute e w p startLine endLine cnt offsetArg
           = (failure (asc ''Invalid line numbers''), w)
       \<and> isError (failure (asc ''Invalid line numbers'')) = Some True
       \<and> replaceAtPosition currentContent startLine endLine cnt offset = Inl InvalidLineNumbers"
  using assms
  by (auto simp: ReplaceFileContentAtPositionTool_execute_def readFile_def replaceAtPosition_def
        Let_def failure_def)

theorem invalid_range_fails_before_write_witness:
  "ReplaceFileContentAtPositionTool_execute sampleEnv (sampleWorld (asc ''only line''))
      samplePath 0 1 (asc ''x'') None
     = (failure (asc ''Invalid line numbers''), sampleWorld (asc ''only line''))
   \<and> ReplaceFileContentAtPositionTool_execute sampleEnv (sampleWorld (asc ''only line''))
      samplePath 1 2 (asc ''x'') None
     = (failure (asc ''Invalid line numbers''), sampleWorld (asc ''only line''))
   \<and> ReplaceFileContentAtPositionTool_execute sampleEnv (sampleWorld (asc ''a'' @ [LF] @ asc ''b''))
      samplePath 2 1 (asc ''x'') None
     = (failure (asc ''Invalid line numbers''), sampleWorld (asc ''a'' @ [LF] @ asc ''b''))"
proof -
  have f: "files (sampleWorld t) samplePath = Some t" for t
    by (simp add: sampleWorld_def)
  have l1: "length (String_split (replace_CRLF (asc ''only line'')) LF) = 1"
    by (simp add: asc_def LF_def CR_def)
  show ?thesis
    using invalid_range_fails_before_write[OF f[of "asc ''only line''"],
            where startLine = 0 and endLine = 1 and e = sampleEnv
              and cnt = "asc ''x''" and offsetArg = None and offset = 0]
          invalid_range_fails_before_write[OF f[of "asc ''only line''"],
            where startLine = 1 and endLine = 2 and e = sampleEnv
              and cnt = "asc ''x''" and offsetArg = None and offset = 0]
          invalid_range_fails_before_write[OF f[of "asc ''a'' @ [LF] @ asc ''b''"],
            where startLine = 2 and endLine = 1
              and e = sampleEnv and cnt = "asc ''x''" and offsetArg = None and offset = 0]
          l1
    by simp
qed

section \<open>Errors become failure envelopes (C7)\<close>

text \<open>
  Claim C7. An unregistered tool name gives a failure envelope on both paths of the
  request handler (the direct one returns it, the HTTP one sends it with status 404).
  When the handler of a registered tool throws, the direct path returns the failure
  envelope that carries the error's message (or \<open>Unknown error\<close> for a thrown value
  that is no \<open>Error\<close>), and the HTTP path sends one failure envelope. Every failure
  envelope has \<open>isError = true\<close> and one text item holding the message. Handling a
  request always sends exactly one response.
\<close>

theorem thrown_errors_become_failure_envelopes:
  fixes toolManager :: "jsstring \<rightharpoonup> ('p, 's) McpTool"
  shows "(toolManager tn = None \<longrightarrow>
            fst (executeToolDirect toolManager tn ps s) = failure (asc ''Unknown tool: '' @ tn)
          \<and> sent (handleToolExecution toolManager chain tn ps m pth srv)
              = sent srv @ [(404, failure (asc ''Unknown tool: '' @ tn))])
       \<and> (toolManager tn = Some tool \<and> handle tool ps s = (Inl err, s1) \<longrightarrow>
            executeToolDirect toolManager tn ps s = (failure (thrownMessage err), s1, [(tn, ps)]))
       \<and> (toolManager tn = Some tool
          \<and> processBeforeRequest chain
               \<lparr>toolName = tn, params = ps, httpMethod = m, requestPath = pth,
                cachedResponse = None\<rparr>
               (st srv) = (Inr (Some ctx), s0)
          \<and> cachedResponse ctx = None
          \<and> handle tool ps s0 = (Inl err, s1) \<longrightarrow>
            sent (handleToolExecution toolManager chain tn ps m pth srv)
               = sent srv @ [(500, failure (asc ''Error executing tool '' @ tn @ asc '': ''
                                             @ thrownMessage err))])
       \<and> (\<forall>message. isError (failure message) = Some True
              \<and> content (failure message) = [\<lparr>ctype = ''text'', ctext = Some (Literal message)\<rparr>])
       \<and> length (sent (handleToolExecution toolManager chain tn ps m pth srv))
           = Suc (length (sent srv))"
  by (auto simp: executeToolDirect_def handleToolExecution_def sendJsonResponse_def
        sendResponse_def handleServerError_def failure_def Let_def
        split: option.splits sum.splits prod.splits)

theorem thrown_errors_become_failure_envelopes_witness:
  "executeToolDirect [asc ''boom'' \<mapsto> throwingTool] (asc ''boom'') () 0
     = (failure (asc ''disk full''), 1, [(asc ''boom'', ())])
   \<and> fst (executeToolDirect [asc ''boom'' \<mapsto> throwingTool] (asc ''nope'') () 0)
     = failure (asc ''Unknown tool: nope'')
   \<and> sent (handleToolExecution [asc ''boom'' \<mapsto> throwingTool] passingChain (asc ''boom'') ()
            (asc ''POST'') (asc ''/mcp/boom'') sampleServer)
     = [(500, failure (asc ''Error executing tool boom: disk full''))]
   \<and> isError (failure (asc ''disk full'')) = Some True"
proof -
  have u: "[asc ''boom'' \<mapsto> throwingTool] (asc ''nope'') = None" by (simp add: asc_def)
  have k: "[asc ''boom'' \<mapsto> throwingTool] (asc ''boom'') = Some throwingTool" by simp
  have h: "handle throwingTool () 0 = (Inl (Error (asc ''disk full'')), 1)"
    by (simp add: throwingTool_def)
  have b: "processBeforeRequest passingChain
             \<lparr>toolName = asc ''boom'', params = (), httpMethod = asc ''POST'',
              requestPath = asc ''/mcp/boom'', cachedResponse = None\<rparr> (st sampleServer)
           = (Inr (Some \<lparr>toolName = asc ''boom'', params = (), httpMethod = asc ''POST'',
              requestPath = asc ''/mcp/boom'', cachedResponse = None\<rparr>), 0)"
    by (simp add: passingChain_def sampleServer_def)
  show ?thesis
    using thrown_errors_become_failure_envelopes[
            where toolManager = "[asc ''boom'' \<mapsto> throwingTool]" and tn = "asc ''nope''"
              and ps = "()" and s = 0 and chain = passingChain and m = "asc ''POST''"
              and pth = "asc ''/mcp/boom''" and srv = sampleServer]
          thrown_errors_become_failure_envelopes[
            where toolManager = "[asc ''boom'' \<mapsto> throwingTool]" and tn = "asc ''boom''"
              and ps = "()" and s = 0 and chain = passingChain and m = "asc ''POST''"
              and pth = "asc ''/mcp/boom''" and srv = sampleServer and tool = throwingTool
              and err = "Error (asc ''disk full'')" and ?s1.0 = 1 and ?s0.0 = 0
              and ctx = "\<lparr>toolName = asc ''boom'', params = (), httpMethod = asc ''POST'',
                requestPath = asc ''/mcp/boom'', cachedResponse = None\<rparr>"]
          u k h b
    by (simp add: thrownMessage_def sampleServer_def asc_def)
qed

section \<open>Append keeps the existing text (C9)\<close>

text \<open>
  Claim C9. For an existing file and any content to append: when the write goes
  through, the text written starts with the existing text, unit for unit, with no
  normalisation of its line endings, and what follows is the appended content with its
  line endings rewritten to the dominant style of the existing text (CRLF pairs read as
  line breaks, every line break written in that style). When the write fails, nothing
  has changed and the answer is a failure envelope.
\<close>

theorem append_keeps_existing_text:
  assumes "files w p = Some existingContent"
      and "AppendFileContentTool_execute e w p cnt = (r, w1)"
  shows "(\<not> writeFails e \<longrightarrow>
            files w1 p = Some (existingContent @ adaptLineEndings existingContent cnt)
          \<and> take (length existingContent) (the (files w1 p)) = existingContent
          \<and> drop (length existingContent) (the (files w1 p))
              = replace_LF (replace_CRLF cnt) (detectLineEnding existingContent)
          \<and> isError r = Some False)
       \<and> (writeFails e \<longrightarrow> w1 = w \<and> isError r = Some True)"
  using assms
  by (auto simp: AppendFileContentTool_execute_def fileExists_def readFile_def Let_def
        writeFileSimple_def respondThenDefer_def success_def adaptLineEndings_def
        handleFileSystemError_def failure_def split: if_splits)

theorem append_keeps_existing_text_witness:
  "files (snd (AppendFileContentTool_execute sampleEnv (sampleWorld (asc ''a'' @ CRLF @ asc ''b''))
                 samplePath (asc ''c'' @ [LF] @ asc ''d''))) samplePath
     = Some (asc ''a'' @ CRLF @ asc ''b'' @ asc ''c'' @ CRLF @ asc ''d'')
   \<and> isError (fst (AppendFileContentTool_execute sampleEnv (sampleWorld (asc ''a'' @ CRLF @ asc ''b''))
                 samplePath (asc ''c'' @ [LF] @ asc ''d''))) = Some False
   \<and> snd (AppendFileContentTool_execute (sampleEnv\<lparr>writeFails := True\<rparr>)
            (sampleWorld (asc ''a'' @ CRLF @ asc ''b'')) samplePath (asc ''c'' @ [LF] @ asc ''d''))
     = sampleWorld (asc ''a'' @ CRLF @ asc ''b'')"
proof -
  have f: "files (sampleWorld (asc ''a'' @ CRLF @ asc ''b'')) samplePath
             = Some (asc ''a'' @ CRLF @ asc ''b'')"
    by (simp add: sampleWorld_def)
  have a: "adaptLineEndings (asc ''a'' @ CRLF @ asc ''b'') (asc ''c'' @ [LF] @ asc ''d'')
             = asc ''c'' @ CRLF @ asc ''d''"
    by (simp add: adaptLineEndings_def detectLineEnding_def asc_def CRLF_def CR_def LF_def)
  have n: "\<not> writeFails sampleEnv" and y: "writeFails (sampleEnv\<lparr>writeFails := True\<rparr>)"
    by (simp_all add: sampleEnv_def)
  show ?thesis
    using append_keeps_existing_text[OF f surjective_pairing,
            where e = sampleEnv and cnt = "asc ''c'' @ [LF] @ asc ''d''"]
          append_keeps_existing_text[OF f surjective_pairing,
            where e = "sampleEnv\<lparr>writeFails := True\<rparr>" and cnt = "asc ''c'' @ [LF] @ asc ''d''"]
          a n y
    by simp
qed

section \<open>Reading with a character limit (C10)\<close>

text \<open>
  Claim C10. Let the limit be the \<open>maxCharacters\<close> argument when it is a positive
  finite number, and 100000 otherwise. Whenever \<open>get_file_text_by_path\<close> answers with
  \<open>isError = false\<close>, the read returned a text, and: if that text is longer than the
  limit, the content returned is its first \<open>\<lfloor>limit\<rfloor>\<close> units (the limit itself when
  it is integral) and \<open>truncated\<close> is true; otherwise the content is the whole text
  and \<open>truncated\<close> is false. In both cases the structured \<open>content\<close> is the text
  returned, \<open>length\<close> is its length and \<open>totalLength\<close> is the length of the whole
  text.
\<close>

theorem read_truncates_at_limit:
  assumes "GetFileTextByPathTool_execute e w p encoding maxCharacters = (r, w1)"
      and "isError r = Some False"
      and "limit = (case maxCharacters of
                      Some (Finite q) \<Rightarrow> if q > 0 then q else 100000
                    | _ \<Rightarrow> 100000)"
  shows "\<exists>fullText returned.
           fst (getFileContent w p) = Inr fullText
         \<and> content r = [\<lparr>ctype = ''text'', ctext = Some (Literal returned)\<rparr>]
         \<and> field (structuredContent r) ''content'' = Some (JString returned)
         \<and> (of_nat (length fullText) > limit \<longrightarrow>
               returned = take (nat \<lfloor>limit\<rfloor>) fullText
             \<and> length returned = nat \<lfloor>limit\<rfloor>
             \<and> field (structuredContent r) ''truncated'' = Some (JBoolean True))
         \<and> (\<not> of_nat (length fullText) > limit \<longrightarrow>
               returned = fullText
             \<and> field (structuredContent r) ''truncated'' = Some (JBoolean False))
         \<and> field (structuredContent r) ''length''
             = Some (JNumber (Finite (of_nat (length returned))))
         \<and> field (structuredContent r) ''totalLength''
             = Some (JNumber (Finite (of_nat (length fullText))))"
proof -
  have lim: "limit = effectiveMaxCharacters maxCharacters"
    using assms(3)
    by (simp add: effectiveMaxCharacters_def maxFileReadCharacters_def
          split: option.splits number.splits)
  from assms(1,2) obtain fullText where rd: "getFileContent w p = (Inr fullText, w1)"
    by (auto simp: GetFileTextByPathTool_execute_def failure_def handleFileSystemError_def Let_def
          split: if_splits prod.splits sum.splits)
  have fl: "nat \<lfloor>limit\<rfloor> \<le> length fullText" if "of_nat (length fullText) > limit"
  proof -
    have "\<lfloor>limit\<rfloor> \<le> \<lfloor>(of_nat (length fullText))::rat\<rfloor>"
      using that by (intro floor_mono) simp
    then show ?thesis by simp
  qed
  show ?thesis
    using assms(1,2) rd fl
    by (auto simp: GetFileTextByPathTool_execute_def failure_def Let_def lim[symmetric]
          String_slice0_def min_def split: if_splits)
qed

theorem read_truncates_at_limit_witness:
  "\<exists>r w1. GetFileTextByPathTool_execute sampleEnv (sampleWorld (asc ''hello'')) samplePath
             (Some (asc ''UTF-8'')) (Some (Finite 3)) = (r, w1)
     \<and> isError r = Some False
     \<and> content r = [\<lparr>ctype = ''text'', ctext = Some (Literal (asc ''hel''))\<rparr>]
     \<and> field (structuredContent r) ''truncated'' = Some (JBoolean True)
     \<and> field (structuredContent r) ''length'' = Some (JNumber (Finite 3))
     \<and> field (structuredContent r) ''totalLength'' = Some (JNumber (Finite 5))"
proof -
  obtain r w1 where ex: "GetFileTextByPathTool_execute sampleEnv (sampleWorld (asc ''hello''))
      samplePath (Some (asc ''UTF-8'')) (Some (Finite 3)) = (r, w1)"
    by (cases "GetFileTextByPathTool_execute sampleEnv (sampleWorld (asc ''hello''))
      samplePath (Some (asc ''UTF-8'')) (Some (Finite 3))")
  have g: "getFileContent (sampleWorld (asc ''hello'')) samplePath
             = (Inr (asc ''hello''), (sampleWorld (asc ''hello''))\<lparr>cache := [samplePath \<mapsto> asc ''hello'']\<rparr>)"
    by (simp add: getFileContent_def sampleWorld_def)
  have enc: "toLowerCase (asc ''UTF-8'') = asc ''utf-8''"
    by (simp add: toLowerCase_def asc_def)
  from ex have ok: "isError r = Some False"
    by (auto simp: GetFileTextByPathTool_execute_def enc g Let_def)
  from read_truncates_at_limit[OF ex ok, where limit = 3] obtain fullText returned where
    c: "fst (getFileContent (sampleWorld (asc ''hello'')) samplePath) = Inr fullText"
       "content r = [\<lparr>ctype = ''text'', ctext = Some (Literal returned)\<rparr>]"
       "of_nat (length fullText) > (3::rat) \<longrightarrow>
               returned = take (nat \<lfloor>3::rat\<rfloor>) fullText
             \<and> field (structuredContent r) ''truncated'' = Some (JBoolean True)"
       "field (structuredContent r) ''length'' = Some (JNumber (Finite (of_nat (length returned))))"
       "field (structuredContent r) ''totalLength'' = Some (JNumber (Finite (of_nat (length fullText))))"
    by auto
  from c(1) g have ft: "fullText = asc ''hello''" by simp
  with c(3) have rt: "returned = asc ''hel''"
    and tr: "field (structuredContent r) ''truncated'' = Some (JBoolean True)"
    by (simp_all add: asc_def)
  show ?thesis using ex ok c(2,4,5) ft rt tr by (simp add: asc_def)
qed

section \<open>Lines, joins and line endings\<close>

lemma CR_neq_LF [simp]: "CR \<noteq> LF" "LF \<noteq> CR"
  by (simp_all add: CR_def LF_def)

lemma String_includes_sublist: "String_includes s p \<longleftrightarrow> sublist p s"
  by (induction s) (auto simp: sublist_Cons_right)

lemma includes_CRLF_simps:
  "String_includes [] CRLF = False"
  "String_includes [c] CRLF = False"
  "String_includes (c # d # r) CRLF = ((c = CR \<and> d = LF) \<or> String_includes (d # r) CRLF)"
  by (auto simp: CRLF_def)

lemma String_split_nonempty [simp]: "String_split s sep \<noteq> []"
  by (induction s) (auto split: list.splits)

lemma String_split_free: "l \<in> set (String_split s sep) \<Longrightarrow> sep \<notin> set l"
  by (induction s arbitrary: l) (auto split: list.splits if_splits)

lemma Array_join_Cons: "ls \<noteq> [] \<Longrightarrow> Array_join (l # ls) sep = l @ sep @ Array_join ls sep"
  by (cases ls) auto

lemma join_split: "Array_join (String_split s sep) [sep] = s"
proof (induction s)
  case Nil
  then show ?case by simp
next
  case (Cons c s)
  show ?case
  proof (cases "c = sep")
    case True
    then show ?thesis using Cons by (simp add: Array_join_Cons)
  next
    case False
    obtain l ls where sp: "String_split s sep = l # ls"
      by (cases "String_split s sep") auto
    then show ?thesis using Cons False by (cases ls) auto
  qed
qed

lemma split_free_line: "sep \<notin> set l \<Longrightarrow> String_split (l @ sep # r) sep = l # String_split r sep"
  by (induction l) auto

lemma split_free: "sep \<notin> set l \<Longrightarrow> String_split l sep = [l]"
  by (induction l) auto

lemma split_join:
  "ls \<noteq> [] \<Longrightarrow> (\<forall>l\<in>set ls. sep \<notin> set l) \<Longrightarrow> String_split (Array_join ls [sep]) sep = ls"
proof (induction ls "[sep]" rule: Array_join.induct)
  case 1
  then show ?case by simp
next
  case (2 l)
  then show ?case by (simp add: split_free)
next
  case (3 l m ls)
  then show ?case by (simp add: split_free_line)
qed

lemma replace_CRLF_id: "\<not> String_includes s CRLF \<Longrightarrow> replace_CRLF s = s"
  by (induction s rule: replace_CRLF.induct)
     (auto simp: includes_CRLF_simps simp del: String_includes.simps)

lemma replace_CRLF_line:
  "LF \<notin> set l \<Longrightarrow> replace_CRLF (l @ CR # LF # r) = l @ LF # replace_CRLF r"
  by (induction l rule: replace_CRLF.induct) auto

lemma replace_CRLF_free: "LF \<notin> set l \<Longrightarrow> replace_CRLF l = l"
  by (induction l rule: replace_CRLF.induct) auto

lemma replace_CRLF_join:
  "(\<forall>l\<in>set ls. LF \<notin> set l) \<Longrightarrow> replace_CRLF (Array_join ls CRLF) = Array_join ls [LF]"
proof (induction ls "CRLF" rule: Array_join.induct)
  case 1
  then show ?case by simp
next
  case (2 l)
  then show ?case by (simp add: replace_CRLF_free)
next
  case (3 l m ls)
  then show ?case by (simp add: replace_CRLF_line CRLF_def)
qed

lemma includes_CRLF_line:
  "LF \<notin> set l \<Longrightarrow> String_includes (l @ LF # r) CRLF \<longleftrightarrow> endsCR l \<or> String_includes r CRLF"
proof (induction l rule: replace_CRLF.induct)
  case (1 c d r')
  then show ?case
    by (auto simp: includes_CRLF_simps endsCR_def simp del: String_includes.simps)
next
  case (2 c)
  then show ?case
    by (cases r) (auto simp: includes_CRLF_simps endsCR_def simp del: String_includes.simps)
next
  case 3
  then show ?case
    by (cases r) (auto simp: includes_CRLF_simps endsCR_def simp del: String_includes.simps)
qed

lemma includes_CRLF_free: "LF \<notin> set l \<Longrightarrow> \<not> String_includes l CRLF"
  by (induction l rule: replace_CRLF.induct)
     (auto simp: includes_CRLF_simps simp del: String_includes.simps)

lemma includes_CRLF_join_LF:
  "(\<forall>l\<in>set ls. LF \<notin> set l) \<Longrightarrow>
   String_includes (Array_join ls [LF]) CRLF \<longleftrightarrow> (\<exists>l\<in>set (butlast ls). endsCR l)"
proof (induction ls "[LF]" rule: Array_join.induct)
  case 1
  then show ?case by (simp add: includes_CRLF_simps del: String_includes.simps)
next
  case (2 l)
  then show ?case by (simp add: includes_CRLF_free)
next
  case (3 l m ls)
  then show ?case by (simp add: includes_CRLF_line)
qed

lemma includes_CRLF_join_CRLF:
  "2 \<le> length ls \<Longrightarrow> String_includes (Array_join ls CRLF) CRLF"
proof -
  assume "2 \<le> length ls"
  then obtain l m r where "ls = l # m # r"
    by (cases ls; cases "tl ls") auto
  then show ?thesis by (simp add: String_includes_sublist)
qed

lemma length_split: "length (String_split s sep) = Suc (count_list s sep)"
  by (induction s) (auto split: list.splits)

lemma includes_CRLF_normalized_LF:
  "String_includes s CRLF \<Longrightarrow> LF \<in> set (replace_CRLF s)"
  by (induction s rule: replace_CRLF.induct)
     (auto simp: includes_CRLF_simps simp del: String_includes.simps)

lemma includes_CRLF_two_lines:
  "String_includes s CRLF \<Longrightarrow> 2 \<le> length (String_split (replace_CRLF s) LF)"
proof -
  assume "String_includes s CRLF"
  then have "LF \<in> set (replace_CRLF s)" by (rule includes_CRLF_normalized_LF)
  then have "count_list (replace_CRLF s) LF \<noteq> 0" by (simp add: count_list_0_iff)
  then show ?thesis by (simp add: length_split)
qed

lemma hasBareLF_free: "LF \<notin> set l \<Longrightarrow> \<not> hasBareLF l"
  by (induction l rule: hasBareLF.induct) auto

lemma hasBareLF_line: "LF \<notin> set l \<Longrightarrow> hasBareLF (l @ CR # LF # r) = hasBareLF r"
  by (induction l rule: hasBareLF.induct) auto

lemma hasBareLF_join_CRLF:
  "(\<forall>l\<in>set ls. LF \<notin> set l) \<Longrightarrow> \<not> hasBareLF (Array_join ls CRLF)"
proof (induction ls "CRLF" rule: Array_join.induct)
  case 1
  then show ?case by simp
next
  case (2 l)
  then show ?case by (simp add: hasBareLF_free)
next
  case (3 l m ls)
  then show ?case by (simp add: hasBareLF_line CRLF_def)
qed

lemma Array_splice_range:
  assumes "1 \<le> a" "a \<le> b" "b \<le> int (length xs)"
  shows "Array_splice xs (a - 1) (b - a + 1) items
           = take (nat (a - 1)) xs @ items @ drop (nat b) xs"
  using assms by (simp add: Array_splice_def Let_def min_def max_def)

lemma replaceAtPosition_Inr:
  assumes "replaceAtPosition cur a b cnt off = Inr out"
  shows "1 \<le> a" and "a \<le> b" and "b \<le> int (length (String_split (replace_CRLF cur) LF))"
    and "out = Array_join (editedLines cur a b cnt off) (detectLineEnding cur)"
proof -
  from assms show v: "1 \<le> a" "a \<le> b" "b \<le> int (length (String_split (replace_CRLF cur) LF))"
    by (auto simp: replaceAtPosition_def Let_def split: if_splits)
  from assms v show "out = Array_join (editedLines cur a b cnt off) (detectLineEnding cur)"
    by (auto simp: replaceAtPosition_def editedLines_def Let_def Array_splice_range split: if_splits)
qed

lemma replaceAtPosition_valid:
  assumes "1 \<le> a" and "a \<le> b" and "b \<le> int (length (String_split (replace_CRLF cur) LF))"
  shows "replaceAtPosition cur a b cnt off
           = Inr (Array_join (editedLines cur a b cnt off) (detectLineEnding cur))"
  using assms
  by (auto simp: replaceAtPosition_def editedLines_def Let_def Array_splice_range)

lemma editedLines_nonempty:
  assumes "1 \<le> a" and "a \<le> b" and "b \<le> int (length (String_split (replace_CRLF cur) LF))"
  shows "editedLines cur a b cnt off \<noteq> []"
  using assms by (auto simp: editedLines_def Let_def)

lemma replaceSingleLine_free:
  "c \<notin> set l \<Longrightarrow> c \<notin> set a \<Longrightarrow> c \<notin> set (replaceSingleLine l off a)"
  by (auto simp: replaceSingleLine_take_drop dest: in_set_takeD in_set_dropD)

lemma editedLines_LF_free:
  assumes "a < b \<or> LF \<notin> set (replace_CRLF cnt)"
      and "l \<in> set (editedLines cur a b cnt off)"
      and "1 \<le> a" and "b \<le> int (length (String_split (replace_CRLF cur) LF))"
  shows "LF \<notin> set l"
proof (cases "a = b")
  case True
  let ?ls = "String_split (replace_CRLF cur) LF"
  from True assms(1) have f: "LF \<notin> set (replace_CRLF cnt)" by simp
  from True assms(3,4) have i: "nat (a - 1) < length ?ls" by linarith
  from True assms(2) have "l \<in> set (?ls[nat (a - 1) := replaceSingleLine (?ls ! nat (a - 1)) off (replace_CRLF cnt)])"
    by (simp add: editedLines_def Let_def)
  then have "l \<in> set ?ls \<or> l = replaceSingleLine (?ls ! nat (a - 1)) off (replace_CRLF cnt)"
    using set_update_subset_insert by fastforce
  moreover have "LF \<notin> set (?ls ! nat (a - 1))" using i String_split_free nth_mem by blast
  ultimately show ?thesis using f String_split_free replaceSingleLine_free by blast
next
  case False
  with assms(2) show ?thesis
    by (auto simp: editedLines_def Let_def dest: in_set_takeD in_set_dropD String_split_free)
qed

lemma String_split_subset: "l \<in> set (String_split s sep) \<Longrightarrow> set l \<subseteq> set s"
proof (induction s arbitrary: l)
  case Nil
  then show ?case by simp
next
  case (Cons c s)
  obtain m ms where sp: "String_split s sep = m # ms"
    by (cases "String_split s sep") auto
  then have "set m \<subseteq> set s" and "\<forall>k\<in>set ms. set k \<subseteq> set s"
    using Cons.IH by auto
  then show ?case using Cons.prems sp by (auto split: if_splits)
qed

lemma lines_no_endsCR:
  assumes "\<not> String_includes cur CRLF"
  shows "\<forall>l\<in>set (butlast (String_split (replace_CRLF cur) LF)). \<not> endsCR l"
proof -
  let ?ls = "String_split cur LF"
  have "\<forall>l\<in>set ?ls. LF \<notin> set l" using String_split_free by blast
  then have "String_includes (Array_join ?ls [LF]) CRLF \<longleftrightarrow> (\<exists>l\<in>set (butlast ?ls). endsCR l)"
    by (rule includes_CRLF_join_LF)
  then show ?thesis using assms by (simp add: join_split replace_CRLF_id)
qed

lemma replaceSingleLine_endsCR:
  assumes "\<not> endsCR l" and "\<not> endsCR a"
  shows "\<not> endsCR (replaceSingleLine l off a)"
proof (cases "drop (nat (off + int (length a))) l = []")
  case False
  then have "last (replaceSingleLine l off a) = last l"
    by (simp add: replaceSingleLine_take_drop)
  moreover from False have "l \<noteq> []" by auto
  ultimately show ?thesis using assms(1) by (simp add: endsCR_def)
next
  case True
  note d = True
  show ?thesis
  proof (cases "a = []")
    case False
    then have "last (replaceSingleLine l off a) = last a" using d
      by (simp add: replaceSingleLine_take_drop)
    then show ?thesis using assms(2) False by (simp add: endsCR_def)
  next
    case True
    show ?thesis
    proof (cases "off < 0")
      case True
      then show ?thesis using \<open>a = []\<close> d by (simp add: replaceSingleLine_take_drop endsCR_def)
    next
      case False
      then have "replaceSingleLine l off a = l" using \<open>a = []\<close> d
        by (simp add: replaceSingleLine_take_drop)
      then show ?thesis using assms(1) by simp
    qed
  qed
qed

lemma set_butlast_splice:
  assumes "n < length xs"
  shows "set (butlast (take n xs @ N @ drop m xs)) \<subseteq> set (butlast xs) \<union> set N"
proof -
  have a: "set (take n xs) \<subseteq> set (butlast xs)"
  proof -
    have "take n xs = take n (butlast xs)" using assms by (simp add: take_butlast)
    then show ?thesis by (metis set_take_subset)
  qed
  have d: "set (butlast (drop m xs)) \<subseteq> set (butlast xs)"
    by (metis drop_butlast set_drop_subset)
  have "set (butlast (take n xs @ N @ drop m xs)) \<subseteq> set (take n xs) \<union> set N \<union> set (butlast (drop m xs))"
    by (auto simp: butlast_append dest: in_set_butlastD split: if_splits)
  then show ?thesis using a d by blast
qed

lemma set_butlast_update:
  "set (butlast (xs[i := y])) \<subseteq> set (butlast xs) \<union> (if Suc i < length xs then {y} else {})"
proof (cases "Suc i < length xs")
  case True
  then have "butlast (xs[i := y]) = (butlast xs)[i := y]" by (auto simp: butlast_list_update)
  then show ?thesis using True set_update_subset_insert[of "butlast xs" i y] by auto
next
  case False
  then have "butlast (xs[i := y]) = butlast xs"
    by (cases "i < length xs") (auto simp: butlast_list_update list_update_beyond)
  then show ?thesis by simp
qed

lemma endsCR_append: "endsCR y \<Longrightarrow> endsCR (x @ y)"
  by (simp add: endsCR_def)

lemma endsCR_join_last: "ls \<noteq> [] \<Longrightarrow> endsCR (last ls) \<Longrightarrow> endsCR (Array_join ls sep)"
proof (induction ls sep rule: Array_join.induct)
  case (1 sep)
  then show ?case by simp
next
  case (2 l sep)
  then show ?case by simp
next
  case (3 l m ls sep)
  then have "endsCR (Array_join (m # ls) sep)" by simp
  then show ?case by (simp add: endsCR_append)
qed

lemma split_no_endsCR:
  assumes "\<not> String_includes s CRLF" and "\<not> endsCR s" and "m \<in> set (String_split s LF)"
  shows "\<not> endsCR m"
proof -
  let ?ls = "String_split s LF"
  have free: "\<forall>l\<in>set ?ls. LF \<notin> set l" using String_split_free by blast
  have j: "Array_join ?ls [LF] = s" by (rule join_split)
  have b: "\<forall>l\<in>set (butlast ?ls). \<not> endsCR l"
    using includes_CRLF_join_LF[OF free] assms(1) j by simp
  have l: "\<not> endsCR (last ?ls)"
    using endsCR_join_last[of ?ls "[LF]"] j assms(2) by auto
  have "m \<in> set (butlast ?ls) \<or> m = last ?ls"
    using assms(3) by (metis String_split_nonempty append_butlast_last_id in_set_conv_decomp
        rotate1.simps(2) set_ConsD set_rotate1)
  then show ?thesis using b l by blast
qed

lemma CR_free_no_CRLF: "CR \<notin> set s \<Longrightarrow> \<not> String_includes s CRLF \<and> \<not> endsCR s"
proof -
  assume a: "CR \<notin> set s"
  have "\<not> sublist CRLF s"
  proof
    assume "sublist CRLF s"
    then have "set CRLF \<subseteq> set s" by (rule set_mono_sublist)
    then show False using a by (simp add: CRLF_def)
  qed
  moreover have "\<not> endsCR s" using a by (metis endsCR_def last_in_set)
  ultimately show ?thesis by (simp add: String_includes_sublist)
qed

lemma editedLines_no_endsCR:
  assumes nc: "\<not> String_includes cur CRLF"
      and nr: "\<not> String_includes (replace_CRLF cnt) CRLF"
      and ne: "\<not> endsCR (replace_CRLF cnt)"
      and v: "1 \<le> a" "a \<le> b" "b \<le> int (length (String_split (replace_CRLF cur) LF))"
      and l: "l \<in> set (butlast (editedLines cur a b cnt off))"
  shows "\<not> endsCR l"
proof -
  let ?ls = "String_split (replace_CRLF cur) LF"
  have old: "\<forall>l\<in>set (butlast ?ls). \<not> endsCR l" using nc by (rule lines_no_endsCR)
  show ?thesis
  proof (cases "a = b")
    case True
    let ?i = "nat (a - 1)"
    let ?y = "replaceSingleLine (?ls ! ?i) off (replace_CRLF cnt)"
    from True l have "l \<in> set (butlast (?ls[?i := ?y]))" by (simp add: editedLines_def Let_def)
    then have "l \<in> set (butlast ?ls) \<or> (Suc ?i < length ?ls \<and> l = ?y)"
      using set_butlast_update[of ?ls ?i ?y] by (auto split: if_splits)
    moreover have "\<not> endsCR ?y" if "Suc ?i < length ?ls"
    proof -
      from that have "?ls ! ?i \<in> set (butlast ?ls)"
        by (metis length_butlast less_diff_conv nth_butlast nth_mem Suc_eq_plus1)
      then have "\<not> endsCR (?ls ! ?i)" using old by blast
      then show ?thesis using ne by (rule replaceSingleLine_endsCR)
    qed
    ultimately show ?thesis using old by blast
  next
    case False
    with v have n: "nat (a - 1) < length ?ls" by linarith
    from False l have "l \<in> set (butlast (take (nat (a - 1)) ?ls @ String_split (replace_CRLF cnt) LF @ drop (nat b) ?ls))"
      by (simp add: editedLines_def Let_def)
    then have "l \<in> set (butlast ?ls) \<or> l \<in> set (String_split (replace_CRLF cnt) LF)"
      using set_butlast_splice[OF n] by blast
    moreover have "\<not> endsCR m" if "m \<in> set (String_split (replace_CRLF cnt) LF)" for m
      using split_no_endsCR[OF nr ne that] .
    ultimately show ?thesis using old by blast
  qed
qed

lemma editedLines_spliceLines:
  "editedLines cur a b cnt off = spliceLines (String_split (replace_CRLF cur) LF) a b cnt off"
  by (simp add: editedLines_def spliceLines_def Let_def)

section \<open>Line-ending preservation (C6) and idempotence (C8)\<close>

lemma detectLineEnding_CRLF: "detectLineEnding cur = CRLF \<longleftrightarrow> sublist CRLF cur"
  by (simp add: detectLineEnding_def String_includes_sublist CRLF_def)

lemma detectLineEnding_LF: "detectLineEnding cur = [LF] \<longleftrightarrow> \<not> sublist CRLF cur"
  by (simp add: detectLineEnding_def String_includes_sublist CRLF_def)

text \<open>
  Claim C6 as stated fails. An LF-only text of three lines whose first two lines are
  replaced by a replacement ending in a lone CR comes out with a CRLF, and so it does
  when the replacement holds a CR before a CRLF (the normalised replacement then
  still holds a CRLF); and a text joined with CRLF whose second line is replaced, as a
  single line, by a replacement of two lines comes out with a bare LF between them.
\<close>

theorem line_ending_style_not_always_preserved:
  "\<not> String_includes (asc ''a'' @ [LF] @ asc ''b'' @ [LF] @ asc ''c'') CRLF
   \<and> replaceAtPosition (asc ''a'' @ [LF] @ asc ''b'' @ [LF] @ asc ''c'') 1 2 (asc ''x'' @ [CR]) 0
       = Inr (asc ''x'' @ CRLF @ asc ''c'')
   \<and> String_includes (asc ''x'' @ CRLF @ asc ''c'') CRLF
   \<and> replaceAtPosition (asc ''a'' @ [LF] @ asc ''b'' @ [LF] @ asc ''c'') 1 2
         (asc ''x'' @ [CR] @ CRLF @ asc ''y'') 0
       = Inr (asc ''x'' @ CRLF @ asc ''y'' @ [LF] @ asc ''c'')
   \<and> String_includes (asc ''x'' @ CRLF @ asc ''y'' @ [LF] @ asc ''c'') CRLF
   \<and> String_includes (asc ''a'' @ CRLF @ asc ''b'' @ CRLF @ asc ''c'') CRLF
   \<and> \<not> hasBareLF (asc ''a'' @ CRLF @ asc ''b'' @ CRLF @ asc ''c'')
   \<and> replaceAtPosition (asc ''a'' @ CRLF @ asc ''b'' @ CRLF @ asc ''c'') 2 2 (asc ''x'' @ [LF] @ asc ''y'') 0
       = Inr (asc ''a'' @ CRLF @ asc ''x'' @ [LF] @ asc ''y'' @ CRLF @ asc ''c'')
   \<and> hasBareLF (asc ''a'' @ CRLF @ asc ''x'' @ [LF] @ asc ''y'' @ CRLF @ asc ''c'')"
  by code_simp

text \<open>
  Claim C6, as amended. Range replace takes CRLF as the line ending exactly when the
  current text contains a CRLF, and LF otherwise. For every valid range it returns the
  lines of the LF-normalised current text, spliced with the LF-normalised replacement,
  joined with the detected ending; when the current text is the CRLF-join of two or
  more lines without LF, or an LF-join of such lines without any CRLF, the lines
  spliced are those lines. For a multi-line range, or a single-line range whose
  normalised replacement holds no LF: when the current text contains a CRLF, the
  result is CRLF-joined (no line holds an LF, no LF of the result is bare, reading the
  result back gives the spliced lines, and two or more lines make it contain a CRLF);
  when the current text contains no CRLF and the normalised replacement neither holds
  a CRLF nor ends with a CR, the result is LF-only (no line holds an LF, the result
  contains no CRLF, and reading it back gives the spliced lines).
\<close>

theorem line_ending_style_preserved:
  assumes "lines = String_split (replace_CRLF cur) LF"
      and "1 \<le> a" and "a \<le> b" and "b \<le> int (length lines)"
      and "adapted = replace_CRLF cnt"
      and "newLines = spliceLines lines a b cnt offset"
  shows "(detectLineEnding cur = CRLF \<longleftrightarrow> sublist CRLF cur)
       \<and> (detectLineEnding cur = [LF] \<longleftrightarrow> \<not> sublist CRLF cur)
       \<and> replaceAtPosition cur a b cnt offset = Inr (Array_join newLines (detectLineEnding cur))
       \<and> (\<forall>ls. 2 \<le> length ls \<and> (\<forall>l\<in>set ls. LF \<notin> set l) \<and> cur = Array_join ls CRLF
             \<longrightarrow> lines = ls \<and> detectLineEnding cur = CRLF)
       \<and> (\<forall>ls. ls \<noteq> [] \<and> (\<forall>l\<in>set ls. LF \<notin> set l) \<and> cur = Array_join ls [LF]
                \<and> \<not> sublist CRLF cur
             \<longrightarrow> lines = ls \<and> detectLineEnding cur = [LF])
       \<and> ((a < b \<or> LF \<notin> set adapted) \<and> sublist CRLF cur
             \<longrightarrow> (\<forall>l\<in>set newLines. LF \<notin> set l)
               \<and> \<not> hasBareLF (Array_join newLines CRLF)
               \<and> String_split (replace_CRLF (Array_join newLines CRLF)) LF = newLines
               \<and> (2 \<le> length newLines \<longrightarrow> sublist CRLF (Array_join newLines CRLF)))
       \<and> ((a < b \<or> LF \<notin> set adapted) \<and> \<not> sublist CRLF cur
            \<and> \<not> sublist CRLF adapted \<and> \<not> endsCR adapted
             \<longrightarrow> (\<forall>l\<in>set newLines. LF \<notin> set l)
               \<and> \<not> sublist CRLF (Array_join newLines [LF])
               \<and> String_split (replace_CRLF (Array_join newLines [LF])) LF = newLines)"
proof -
  have v: "1 \<le> a" "a \<le> b" "b \<le> int (length (String_split (replace_CRLF cur) LF))"
    using assms(1-4) by simp_all
  have nl: "newLines = editedLines cur a b cnt offset"
    using assms(1,6) by (simp add: editedLines_spliceLines)
  have ne: "newLines \<noteq> []" unfolding nl using v by (rule editedLines_nonempty)
  have run: "replaceAtPosition cur a b cnt offset = Inr (Array_join newLines (detectLineEnding cur))"
    unfolding nl using v by (rule replaceAtPosition_valid)
  have c: "lines = ls \<and> detectLineEnding cur = CRLF"
    if "2 \<le> length ls" "\<forall>l\<in>set ls. LF \<notin> set l" "cur = Array_join ls CRLF" for ls
  proof -
    from that(1) have n: "ls \<noteq> []" by auto
    have "replace_CRLF cur = Array_join ls [LF]" using that(2,3) by (simp add: replace_CRLF_join)
    then have "lines = ls" using assms(1) split_join[OF n that(2)] by simp
    moreover have "String_includes cur CRLF" using that(1,3) by (simp add: includes_CRLF_join_CRLF)
    ultimately show ?thesis by (simp add: detectLineEnding_def)
  qed
  have d: "lines = ls \<and> detectLineEnding cur = [LF]"
    if "ls \<noteq> []" "\<forall>l\<in>set ls. LF \<notin> set l" "cur = Array_join ls [LF]" "\<not> sublist CRLF cur" for ls
  proof -
    from that(4) have nc: "\<not> String_includes cur CRLF" by (simp add: String_includes_sublist)
    then have "replace_CRLF cur = cur" by (rule replace_CRLF_id)
    then have "lines = ls" using assms(1) that(3) split_join[OF that(1,2)] by simp
    then show ?thesis using nc by (simp add: detectLineEnding_def)
  qed
  have free: "\<forall>l\<in>set newLines. LF \<notin> set l" if "a < b \<or> LF \<notin> set adapted"
  proof
    fix l assume "l \<in> set newLines"
    then have "l \<in> set (editedLines cur a b cnt offset)" using nl by simp
    moreover from that have "a < b \<or> LF \<notin> set (replace_CRLF cnt)" using assms(5) by simp
    ultimately show "LF \<notin> set l" using editedLines_LF_free v(1,3) by blast
  qed
  have e: "(\<forall>l\<in>set newLines. LF \<notin> set l)
               \<and> \<not> hasBareLF (Array_join newLines CRLF)
               \<and> String_split (replace_CRLF (Array_join newLines CRLF)) LF = newLines
               \<and> (2 \<le> length newLines \<longrightarrow> sublist CRLF (Array_join newLines CRLF))"
    if "a < b \<or> LF \<notin> set adapted"
  proof -
    note f = free[OF that]
    have "replace_CRLF (Array_join newLines CRLF) = Array_join newLines [LF]"
      using f by (rule replace_CRLF_join)
    then have "String_split (replace_CRLF (Array_join newLines CRLF)) LF = newLines"
      using split_join[OF ne f] by simp
    then show ?thesis
      using f hasBareLF_join_CRLF[OF f] includes_CRLF_join_CRLF[of newLines]
      by (simp add: String_includes_sublist)
  qed
  have f: "(\<forall>l\<in>set newLines. LF \<notin> set l)
               \<and> \<not> sublist CRLF (Array_join newLines [LF])
               \<and> String_split (replace_CRLF (Array_join newLines [LF])) LF = newLines"
    if h: "a < b \<or> LF \<notin> set adapted" and nc: "\<not> sublist CRLF cur"
      and nr: "\<not> sublist CRLF adapted" and nd: "\<not> endsCR adapted"
  proof -
    note fr = free[OF h]
    have nc': "\<not> String_includes cur CRLF" using nc by (simp add: String_includes_sublist)
    have nr': "\<not> String_includes (replace_CRLF cnt) CRLF"
      using nr assms(5) by (simp add: String_includes_sublist)
    have nd': "\<not> endsCR (replace_CRLF cnt)" using nd assms(5) by simp
    have "\<not> endsCR l" if "l \<in> set (butlast newLines)" for l
      using editedLines_no_endsCR[OF nc' nr' nd' v] that nl by simp
    then have ni: "\<not> String_includes (Array_join newLines [LF]) CRLF"
      using includes_CRLF_join_LF[OF fr] by blast
    then have "replace_CRLF (Array_join newLines [LF]) = Array_join newLines [LF]"
      by (rule replace_CRLF_id)
    then have "String_split (replace_CRLF (Array_join newLines [LF])) LF = newLines"
      using split_join[OF ne fr] by simp
    then show ?thesis using fr ni by (simp add: String_includes_sublist)
  qed
  show ?thesis
    using detectLineEnding_CRLF[of cur] detectLineEnding_LF[of cur] run c d e f by blast
qed

theorem line_ending_style_preserved_witness:
  "replaceAtPosition (asc ''a'' @ CRLF @ asc ''b'' @ CRLF @ asc ''c'') 2 2 (asc ''new'') 0
       = Inr (Array_join [asc ''a'', asc ''new'', asc ''c''] CRLF)
   \<and> \<not> hasBareLF (Array_join [asc ''a'', asc ''new'', asc ''c''] CRLF)
   \<and> String_split (replace_CRLF (Array_join [asc ''a'', asc ''new'', asc ''c''] CRLF)) LF
       = [asc ''a'', asc ''new'', asc ''c'']
   \<and> replaceAtPosition (asc ''a'' @ [LF] @ asc ''b'' @ [LF] @ asc ''c'') 1 2
         (asc ''x'' @ CRLF @ asc ''y'') 0
       = Inr (Array_join [asc ''x'', asc ''y'', asc ''c''] [LF])
   \<and> \<not> sublist CRLF (Array_join [asc ''x'', asc ''y'', asc ''c''] [LF])"
proof -
  let ?c1 = "asc ''a'' @ CRLF @ asc ''b'' @ CRLF @ asc ''c''"
  let ?c2 = "asc ''a'' @ [LF] @ asc ''b'' @ [LF] @ asc ''c''"
  have l1: "[asc ''a'', asc ''b'', asc ''c''] = String_split (replace_CRLF ?c1) LF" by code_simp
  have l2: "[asc ''a'', asc ''b'', asc ''c''] = String_split (replace_CRLF ?c2) LF" by code_simp
  have a1: "asc ''new'' = replace_CRLF (asc ''new'')" by code_simp
  have a2: "asc ''x'' @ [LF] @ asc ''y'' = replace_CRLF (asc ''x'' @ CRLF @ asc ''y'')" by code_simp
  have n1: "[asc ''a'', asc ''new'', asc ''c'']
              = spliceLines [asc ''a'', asc ''b'', asc ''c''] 2 2 (asc ''new'') 0" by code_simp
  have n2: "[asc ''x'', asc ''y'', asc ''c'']
              = spliceLines [asc ''a'', asc ''b'', asc ''c''] 1 2 (asc ''x'' @ CRLF @ asc ''y'') 0"
    by code_simp
  have s1: "sublist CRLF ?c1" by simp
  have s2: "\<not> sublist CRLF ?c2" unfolding String_includes_sublist[symmetric] by code_simp
  have h1: "(2::int) < 2 \<or> LF \<notin> set (asc ''new'')" by code_simp
  have h2: "\<not> sublist CRLF (asc ''x'' @ [LF] @ asc ''y'')"
    unfolding String_includes_sublist[symmetric] by code_simp
  have h3: "\<not> endsCR (asc ''x'' @ [LF] @ asc ''y'')" by code_simp
  note t1 = line_ending_style_preserved[OF l1 _ _ _ a1 n1]
  note t2 = line_ending_style_preserved[OF l2 _ _ _ a2 n2]
  from t1 s1 h1 have
    "replaceAtPosition ?c1 2 2 (asc ''new'') 0 = Inr (Array_join [asc ''a'', asc ''new'', asc ''c''] CRLF)
   \<and> \<not> hasBareLF (Array_join [asc ''a'', asc ''new'', asc ''c''] CRLF)
   \<and> String_split (replace_CRLF (Array_join [asc ''a'', asc ''new'', asc ''c''] CRLF)) LF
       = [asc ''a'', asc ''new'', asc ''c'']"
    by simp
  moreover from t2 s2 h2 h3 have
    "replaceAtPosition ?c2 1 2 (asc ''x'' @ CRLF @ asc ''y'') 0
       = Inr (Array_join [asc ''x'', asc ''y'', asc ''c''] [LF])
   \<and> \<not> sublist CRLF (Array_join [asc ''x'', asc ''y'', asc ''c''] [LF])"
    by simp
  ultimately show ?thesis by blast
qed

lemma replaceSingleLine_idem:
  assumes "0 \<le> off" and "off \<le> int (length l)"
  shows "replaceSingleLine (replaceSingleLine l off a) off a = replaceSingleLine l off a"
proof -
  have n: "nat (off + int (length a)) = nat off + length a"
    using assms by (simp add: nat_add_distrib)
  have t: "length (take (nat off) l) = nat off" using assms by simp
  have "take (nat off) (take (nat off) l @ a @ drop (nat off + length a) l) = take (nat off) l"
    using t by simp
  moreover have "drop (nat off + length a) (take (nat off) l @ a @ drop (nat off + length a) l)
                   = drop (nat off + length a) l"
    using t by simp
  ultimately show ?thesis by (simp add: replaceSingleLine_take_drop n)
qed

text \<open>
  Claim C8 as stated fails: a second application changes the text again when the
  replacement holds a line break, when the offset lies beyond the end of the line, when
  the offset is negative, and when the replacement ends in a lone CR.
\<close>

theorem single_line_replace_not_always_idempotent:
  "replaceAtPosition (asc ''abc'') 1 1 (asc ''x'' @ [LF] @ asc ''y'') 0 = Inr (asc ''x'' @ [LF] @ asc ''y'')
   \<and> replaceAtPosition (asc ''x'' @ [LF] @ asc ''y'') 1 1 (asc ''x'' @ [LF] @ asc ''y'') 0
       = Inr (asc ''x'' @ [LF] @ asc ''y'' @ [LF] @ asc ''y'')
   \<and> asc ''x'' @ [LF] @ asc ''y'' @ [LF] @ asc ''y'' \<noteq> asc ''x'' @ [LF] @ asc ''y''
   \<and> replaceAtPosition (asc ''ab'') 1 1 (asc ''xy'') 5 = Inr (asc ''abxy'')
   \<and> replaceAtPosition (asc ''abxy'') 1 1 (asc ''xy'') 5 = Inr (asc ''abxyxy'')
   \<and> asc ''abxyxy'' \<noteq> asc ''abxy''
   \<and> replaceAtPosition (asc ''abc'') 1 1 (asc ''x'') (- 1) = Inr (asc ''xabc'')
   \<and> replaceAtPosition (asc ''xabc'') 1 1 (asc ''x'') (- 1) = Inr (asc ''xxabc'')
   \<and> asc ''xxabc'' \<noteq> asc ''xabc''
   \<and> replaceAtPosition (asc ''ab'' @ [LF] @ asc ''c'') 1 1 (asc ''x'' @ [CR]) 0 = Inr (asc ''x'' @ CRLF @ asc ''c'')
   \<and> replaceAtPosition (asc ''x'' @ CRLF @ asc ''c'') 1 1 (asc ''x'' @ [CR]) 0
       = Inr (asc ''x'' @ [CR] @ CRLF @ asc ''c'')
   \<and> asc ''x'' @ [CR] @ CRLF @ asc ''c'' \<noteq> asc ''x'' @ CRLF @ asc ''c''"
  by code_simp

text \<open>
  Claim C8, as amended. For a single line \<open>n\<close> in bounds, an offset between 0 and the
  length of that line (in the LF-normalised text), and a replacement whose normalised
  form holds neither CR nor LF: applying the same replacement to the result of the
  first application gives that result again.
\<close>

theorem single_line_replace_idempotent:
  assumes r: "replaceAtPosition cur n n cnt offset = Inr out"
      and o: "0 \<le> offset" "offset \<le> int (length (String_split (replace_CRLF cur) LF ! nat (n - 1)))"
      and cr: "CR \<notin> set (replace_CRLF cnt)" and lf: "LF \<notin> set (replace_CRLF cnt)"
  shows "replaceAtPosition out n n cnt offset = Inr out"
proof -
  let ?ls = "String_split (replace_CRLF cur) LF"
  let ?i = "nat (n - 1)"
  let ?y = "replaceSingleLine (?ls ! ?i) offset (replace_CRLF cnt)"
  let ?nl = "?ls[?i := ?y]"
  note v = replaceAtPosition_Inr[OF r]
  have nl: "editedLines cur n n cnt offset = ?nl" by (simp add: editedLines_def Let_def)
  have out: "out = Array_join ?nl (detectLineEnding cur)" using v(4) nl by simp
  have i: "?i < length ?ls" using v(1,3) by linarith
  have "LF \<notin> set l" if "l \<in> set (editedLines cur n n cnt offset)" for l
    using editedLines_LF_free[OF disjI2[OF lf] that v(1) v(3)] .
  then have free: "\<forall>l\<in>set ?nl. LF \<notin> set l" using nl by simp
  have ne: "?nl \<noteq> []" by simp
  have same: "detectLineEnding out = detectLineEnding cur \<and> String_split (replace_CRLF out) LF = ?nl"
  proof (cases "String_includes cur CRLF")
    case True
    then have le: "detectLineEnding cur = CRLF" by (simp add: detectLineEnding_def)
    from True have "2 \<le> length ?nl" using includes_CRLF_two_lines by simp
    then have "String_includes out CRLF" using out le by (simp add: includes_CRLF_join_CRLF)
    then have "detectLineEnding out = CRLF" by (simp add: detectLineEnding_def)
    moreover have "replace_CRLF out = Array_join ?nl [LF]"
      using out le replace_CRLF_join[OF free] by simp
    then have "String_split (replace_CRLF out) LF = ?nl"
      using split_join[OF ne free] by simp
    ultimately show ?thesis using le by simp
  next
    case False
    then have le: "detectLineEnding cur = [LF]" by (simp add: detectLineEnding_def)
    have "\<not> endsCR l" if "l \<in> set (butlast (editedLines cur n n cnt offset))" for l
      using editedLines_no_endsCR[OF False conjunct1[OF CR_free_no_CRLF[OF cr]]
              conjunct2[OF CR_free_no_CRLF[OF cr]] v(1-3) that] .
    then have "\<forall>l\<in>set (butlast ?nl). \<not> endsCR l" using nl by simp
    then have nc: "\<not> String_includes out CRLF"
      using includes_CRLF_join_LF[OF free] out le by simp
    then have "detectLineEnding out = [LF]" by (simp add: detectLineEnding_def)
    moreover have "replace_CRLF out = out" using nc by (rule replace_CRLF_id)
    then have "String_split (replace_CRLF out) LF = ?nl"
      using split_join[OF ne free] out le by simp
    ultimately show ?thesis using le by simp
  qed
  have len: "int (length (String_split (replace_CRLF out) LF)) = int (length ?ls)"
    using same by simp
  have "editedLines out n n cnt offset = ?nl[?i := replaceSingleLine (?nl ! ?i) offset (replace_CRLF cnt)]"
    using same by (simp add: editedLines_def Let_def)
  also have "\<dots> = ?nl" using i replaceSingleLine_idem[OF o] by simp
  finally have e: "editedLines out n n cnt offset = ?nl" .
  have "replaceAtPosition out n n cnt offset
          = Inr (Array_join (editedLines out n n cnt offset) (detectLineEnding out))"
    using v(1,3) len by (intro replaceAtPosition_valid) simp_all
  then show ?thesis using e same out by simp
qed

theorem single_line_replace_idempotent_witness:
  "replaceAtPosition (asc ''one'' @ CRLF @ asc ''hello world'') 2 2 (asc ''XY'') 2
     = Inr (asc ''one'' @ CRLF @ asc ''heXYo world'')
   \<and> replaceAtPosition (asc ''one'' @ CRLF @ asc ''heXYo world'') 2 2 (asc ''XY'') 2
     = Inr (asc ''one'' @ CRLF @ asc ''heXYo world'')"
proof -
  have r: "replaceAtPosition (asc ''one'' @ CRLF @ asc ''hello world'') 2 2 (asc ''XY'') 2
     = Inr (asc ''one'' @ CRLF @ asc ''heXYo world'')" by code_simp
  have o1: "(0::int) \<le> 2" by simp
  have o2: "2 \<le> int (length (String_split (replace_CRLF (asc ''one'' @ CRLF @ asc ''hello world'')) LF ! nat (2 - 1)))"
    by code_simp
  have c: "CR \<notin> set (replace_CRLF (asc ''XY''))" by code_simp
  have l: "LF \<notin> set (replace_CRLF (asc ''XY''))" by code_simp
  from single_line_replace_idempotent[OF r o1 o2 c l] r show ?thesis by simp
qed

section \<open>Literal replace-all (C3)\<close>

lemma escapedClass_syntax: "c \<in> set escapedClass \<longleftrightarrow> isSyntaxCharacter c"
  unfolding escapedClass_def isSyntaxCharacter_def asc_def by (simp add: backslash_def) blast

lemma isSyntaxCharacter_backslash: "isSyntaxCharacter backslash"
  by (simp add: isSyntaxCharacter_def)

lemma RegExp_literal_Cons_plain:
  "\<not> isSyntaxCharacter c \<Longrightarrow> RegExp_literal (c # r) = map_option ((#) c) (RegExp_literal r)"
  using isSyntaxCharacter_backslash by (cases r) auto

lemma RegExp_literal_escapeRegExp: "RegExp_literal (escapeRegExp s) = Some s"
  by (induction s) (auto simp: escapedClass_syntax RegExp_literal_Cons_plain)

declare RegExp_exec.simps [simp del] matchIndices.simps [simp del]
  spec_replaceAll.simps [simp del] spec_occurrences.simps [simp del]

lemma RegExp_exec_past: "length s < i \<Longrightarrow> RegExp_exec lit s i = None"
  by (subst RegExp_exec.simps) simp

lemma RegExp_exec_hit: "i \<le> length s \<Longrightarrow> prefix lit (drop i s) \<Longrightarrow> RegExp_exec lit s i = Some i"
  by (subst RegExp_exec.simps) simp

lemma RegExp_exec_miss:
  "i \<le> length s \<Longrightarrow> \<not> prefix lit (drop i s) \<Longrightarrow> RegExp_exec lit s i = RegExp_exec lit s (i + 1)"
  by (subst RegExp_exec.simps) simp

lemma RegExp_exec_iff:
  "RegExp_exec lit s i \<noteq> None \<longleftrightarrow> (\<exists>k. i \<le> k \<and> k \<le> length s \<and> prefix lit (drop k s))"
proof (induction lit s i rule: RegExp_exec.induct)
  case (1 lit s i)
  show ?case
  proof (cases "i > length s")
    case True
    then show ?thesis by (simp add: RegExp_exec_past)
  next
    case False
    then have le: "i \<le> length s" by simp
    show ?thesis
    proof (cases "prefix lit (drop i s)")
      case True
      then show ?thesis using le by (auto simp: RegExp_exec_hit)
    next
      case False
      have "(\<exists>k. i \<le> k \<and> k \<le> length s \<and> prefix lit (drop k s))
              \<longleftrightarrow> (\<exists>k. i + 1 \<le> k \<and> k \<le> length s \<and> prefix lit (drop k s))"
      proof
        assume "\<exists>k. i \<le> k \<and> k \<le> length s \<and> prefix lit (drop k s)"
        then obtain k where k: "i \<le> k" "k \<le> length s" "prefix lit (drop k s)" by blast
        with False have "k \<noteq> i" by auto
        with k show "\<exists>k. i + 1 \<le> k \<and> k \<le> length s \<and> prefix lit (drop k s)"
          by (intro exI[of _ k]) simp
      next
        assume "\<exists>k. i + 1 \<le> k \<and> k \<le> length s \<and> prefix lit (drop k s)"
        then show "\<exists>k. i \<le> k \<and> k \<le> length s \<and> prefix lit (drop k s)"
          by (metis add_leD1)
      qed
      moreover have "RegExp_exec lit s (i + 1) \<noteq> None
                       \<longleftrightarrow> (\<exists>k. i + 1 \<le> k \<and> k \<le> length s \<and> prefix lit (drop k s))"
        using "1.IH" le False by simp
      ultimately show ?thesis using le False by (simp add: RegExp_exec_miss)
    qed
  qed
qed

lemma sublist_iff_prefix_drop:
  "sublist lit s \<longleftrightarrow> (\<exists>k. k \<le> length s \<and> prefix lit (drop k s))"
proof
  assume "sublist lit s"
  then obtain ps ss where "s = ps @ lit @ ss" by (auto simp: sublist_def)
  then have "length ps \<le> length s \<and> prefix lit (drop (length ps) s)" by simp
  then show "\<exists>k. k \<le> length s \<and> prefix lit (drop k s)" by blast
next
  assume "\<exists>k. k \<le> length s \<and> prefix lit (drop k s)"
  then obtain k ss where "drop k s = lit @ ss" by (auto simp: prefix_def)
  then have "s = take k s @ lit @ ss" by (metis append_take_drop_id)
  then show "sublist lit s" by (auto simp: sublist_def)
qed

lemma RegExp_test_sublist: "RegExp_test lit s \<longleftrightarrow> sublist lit s"
  using RegExp_exec_iff[of lit s 0] by (simp add: RegExp_test_def sublist_iff_prefix_drop)

lemma matchIndices_past: "length s < i \<Longrightarrow> matchIndices lit s i = []"
  by (subst matchIndices.simps) simp

lemma matchIndices_hit:
  "i \<le> length s \<Longrightarrow> prefix lit (drop i s) \<Longrightarrow>
   matchIndices lit s i = i # matchIndices lit s (if lit = [] then i + 1 else i + length lit)"
  by (subst matchIndices.simps) simp

lemma matchIndices_miss:
  "i \<le> length s \<Longrightarrow> \<not> prefix lit (drop i s) \<Longrightarrow>
   matchIndices lit s i = matchIndices lit s (i + 1)"
  by (subst matchIndices.simps) simp

lemma getSubstitution_plain:
  "dollar \<notin> set new \<Longrightarrow> getSubstitution matched s position new = new"
  by (induction matched s position new rule: getSubstitution.induct) auto

lemma spec_replaceAll_Nil: "old \<noteq> [] \<Longrightarrow> spec_replaceAll old new [] = []"
  by (subst spec_replaceAll.simps) simp

lemma spec_replaceAll_hit:
  "old \<noteq> [] \<Longrightarrow> prefix old t \<Longrightarrow>
   spec_replaceAll old new t = new @ spec_replaceAll old new (drop (length old) t)"
  by (subst spec_replaceAll.simps) auto

lemma spec_replaceAll_miss:
  "old \<noteq> [] \<Longrightarrow> \<not> prefix old (c # t) \<Longrightarrow>
   spec_replaceAll old new (c # t) = c # spec_replaceAll old new t"
  by (subst spec_replaceAll.simps) simp

lemma spec_occurrences_Nil: "old \<noteq> [] \<Longrightarrow> spec_occurrences old [] = 0"
  by (subst spec_occurrences.simps) simp

lemma spec_occurrences_hit:
  "old \<noteq> [] \<Longrightarrow> prefix old t \<Longrightarrow>
   spec_occurrences old t = Suc (spec_occurrences old (drop (length old) t))"
  by (subst spec_occurrences.simps) auto

lemma spec_occurrences_miss:
  "old \<noteq> [] \<Longrightarrow> \<not> prefix old (c # t) \<Longrightarrow>
   spec_occurrences old (c # t) = spec_occurrences old t"
  by (subst spec_occurrences.simps) simp

lemma replace_scan:
  assumes "dollar \<notin> set new"
  shows "lit \<noteq> [] \<Longrightarrow> next \<le> i \<Longrightarrow>
         assembleReplaced s lit new (matchIndices lit s i) next
           = take (i - next) (drop next s) @ spec_replaceAll lit new (drop i s)
       \<and> length (matchIndices lit s i) = spec_occurrences lit (drop i s)"
proof (induction lit s i arbitrary: "next" rule: matchIndices.induct)
  case (1 lit s i)
  note lit = "1.prems"(1) and nx = "1.prems"(2)
  show ?case
  proof (cases "i > length s")
    case True
    then show ?thesis using lit nx
      by (simp add: matchIndices_past spec_replaceAll_Nil spec_occurrences_Nil)
  next
    case False
    then have le: "i \<le> length s" by simp
    show ?thesis
    proof (cases "prefix lit (drop i s)")
      case True
      have ih: "assembleReplaced s lit new (matchIndices lit s (i + length lit)) (i + length lit)
                  = spec_replaceAll lit new (drop (i + length lit) s)
              \<and> length (matchIndices lit s (i + length lit))
                  = spec_occurrences lit (drop (i + length lit) s)"
        using "1.IH"(1)[of "i + length lit"] le True lit by simp
      show ?thesis
        using ih le True lit nx assms
        by (simp add: matchIndices_hit getSubstitution_plain spec_replaceAll_hit
              spec_occurrences_hit add.commute)
    next
      case False
      have ih: "assembleReplaced s lit new (matchIndices lit s (i + 1)) next
                  = take (i + 1 - next) (drop next s) @ spec_replaceAll lit new (drop (i + 1) s)
              \<and> length (matchIndices lit s (i + 1)) = spec_occurrences lit (drop (i + 1) s)"
        using "1.IH"(2)[of "next"] le False lit nx by simp
      show ?thesis
      proof (cases "i < length s")
        case True
        then have d: "drop i s = s ! i # drop (i + 1) s" by (simp add: Cons_nth_drop_Suc)
        have t: "take (i + 1 - next) (drop next s) = take (i - next) (drop next s) @ [s ! i]"
          using True nx by (simp add: Suc_diff_le take_Suc_conv_app_nth)
        show ?thesis
          using ih le False lit d t
          by (simp add: matchIndices_miss spec_replaceAll_miss spec_occurrences_miss)
      next
        case False
        then have e: "i = length s" using le by simp
        then show ?thesis
          using ih le \<open>\<not> prefix lit (drop i s)\<close> lit nx
          by (simp add: matchIndices_miss spec_replaceAll_Nil spec_occurrences_Nil)
      qed
    qed
  qed
qed


lemma replace_scan_empty:
  assumes "dollar \<notin> set new"
  shows "lit = [] \<Longrightarrow> next \<le> i \<Longrightarrow>
         assembleReplaced s lit new (matchIndices lit s i) next
           = take (i - next) (drop next s)
             @ (if i \<le> length s then new @ concat (map (\<lambda>c. c # new) (drop i s)) else [])
       \<and> length (matchIndices lit s i) = Suc (length s) - i"
proof (induction lit s i arbitrary: "next" rule: matchIndices.induct)
  case (1 lit s i)
  note lit = "1.prems"(1) and nx = "1.prems"(2)
  show ?case
  proof (cases "i > length s")
    case True
    then show ?thesis using nx by (simp add: matchIndices_past)
  next
    case False
    then have le: "i \<le> length s" by simp
    have ih: "assembleReplaced s lit new (matchIndices lit s (i + 1)) i
                = take 1 (drop i s)
                  @ (if i + 1 \<le> length s then new @ concat (map (\<lambda>c. c # new) (drop (i + 1) s))
                     else [])
            \<and> length (matchIndices lit s (i + 1)) = Suc (length s) - (i + 1)"
      using "1.IH"(1)[of i] le lit by simp
    have hit: "matchIndices lit s i = i # matchIndices lit s (i + 1)"
      using le lit by (simp add: matchIndices_hit)
    show ?thesis
    proof (cases "i < length s")
      case True
      then have d: "drop i s = s ! i # drop (i + 1) s" by (simp add: Cons_nth_drop_Suc)
      show ?thesis
        using ih hit le lit nx True d assms by (simp add: getSubstitution_plain)
    next
      case False
      then have "i = length s" using le by simp
      then show ?thesis
        using ih hit lit nx assms by (simp add: getSubstitution_plain)
    qed
  qed
qed

lemma spec_replaceAll_empty: "spec_replaceAll [] new s = new @ concat (map (\<lambda>c. c # new) s)"
  by (subst spec_replaceAll.simps) simp

lemma spec_occurrences_empty: "spec_occurrences [] s = Suc (length s)"
  by (subst spec_occurrences.simps) simp

lemma String_replace_global_spec:
  assumes "dollar \<notin> set new"
  shows "String_replace_global s lit new = spec_replaceAll lit new s"
proof (cases "lit = []")
  case True
  then show ?thesis
    using replace_scan_empty[OF assms True, of 0 0 s]
    by (simp add: String_replace_global_def spec_replaceAll_empty)
next
  case False
  then show ?thesis
    using replace_scan[OF assms False, of 0 0 s] by (simp add: String_replace_global_def)
qed

lemma String_match_count_spec: "String_match_count s lit = spec_occurrences lit s"
proof -
  have d: "dollar \<notin> set ([]::jsstring)" by simp
  show ?thesis
  proof (cases "lit = []")
    case True
    then show ?thesis
      using replace_scan_empty[OF d True, of 0 0 s]
      by (simp add: String_match_count_def spec_occurrences_empty)
  next
    case False
    then show ?thesis
      using replace_scan[OF d False, of 0 0 s] by (simp add: String_match_count_def)
  qed
qed

lemma replaceSpecificText_characterised:
  assumes "old = replace_CRLF_or_CR oldText" and "new = replace_CRLF_or_CR newText"
      and "cur = replace_CRLF_or_CR decoded"
  shows "replaceSpecificText decoded oldText newText \<noteq> Inl ReplacementFailed"
    and "replaceSpecificText decoded oldText newText = Inl NoOccurrencesFound \<longleftrightarrow> \<not> sublist old cur"
    and "sublist old cur \<Longrightarrow> \<exists>written.
           replaceSpecificText decoded oldText newText = Inr (written, spec_occurrences old cur)"
    and "sublist old cur \<Longrightarrow> dollar \<notin> set new \<Longrightarrow>
           replaceSpecificText decoded oldText newText
             = Inr (replace_LF (spec_replaceAll old new cur) (detectLineEnding decoded),
                    spec_occurrences old cur)"
  using assms
  by (simp_all add: replaceSpecificText_def Let_def RegExp_literal_escapeRegExp RegExp_test_sublist
        String_match_count_spec String_replace_global_spec)

lemma replaceSpecificText_examples:
  "replaceSpecificText (asc ''foo.foo.foo'') (asc ''foo'') (asc ''bar'') = Inr (asc ''bar.bar.bar'', 3)
   \<and> replaceSpecificText (asc ''nothing here'') (asc ''foo'') (asc ''bar'') = Inl NoOccurrencesFound
   \<and> replaceSpecificText (asc ''a.c abc'') (asc ''a.c'') (asc ''x'') = Inr (asc ''x abc'', 1)
   \<and> replaceSpecificText (asc ''a'' @ CRLF @ asc ''b'') (asc ''a'' @ [LF] @ asc ''b'') (asc ''x'')
        = Inr (asc ''x'', 1)"
  by code_simp

lemma byte_order_mark_is_dropped:
  "files (snd (ReplaceSpecificTextTool_execute sampleEnv
                 (sampleWorld (byteOrderMark # asc ''foo'')) samplePath (asc ''foo'') (asc ''bar'')))
     samplePath = Some (asc ''bar'')"
  by code_simp

text \<open>
  Claim C3, at the input where the code departs from it. The tool is asked to replace
  \<open>foo\<close> by \<open>$$10\<close> in a file holding \<open>total: foo\<close>. The old text occurs once and
  the count reported is 1, but the text written is \<open>total: $10\<close>: the new text is used
  as a replacement pattern, in which \<open>$$\<close> stands for one dollar sign. Replacing the
  occurrence by the new text itself gives \<open>total: $$10\<close>.
\<close>

theorem dollar_in_new_text_is_expanded:
  "replaceSpecificText (asc ''total: foo'') (asc ''foo'') (asc ''$$10'') = Inr (asc ''total: $10'', 1)
   \<and> spec_replaceAll (asc ''foo'') (asc ''$$10'') (asc ''total: foo'') = asc ''total: $$10''
   \<and> files (snd (ReplaceSpecificTextTool_execute sampleEnv (sampleWorld (asc ''total: foo''))
                    samplePath (asc ''foo'') (asc ''$$10''))) samplePath
       = Some (asc ''total: $10'')
   \<and> isError (fst (ReplaceSpecificTextTool_execute sampleEnv (sampleWorld (asc ''total: foo''))
                    samplePath (asc ''foo'') (asc ''$$10''))) = Some False"
  by code_simp

section \<open>Deferred cache update (C1)\<close>

lemma writeFileSimple_Inr:
  "writeFileSimple e w p t \<lparr>checkExists = ce, mustExist = me, skipCacheUpdate = True\<rparr> = Inr w1 \<Longrightarrow>
   w1 = w\<lparr>files := (files w)(p \<mapsto> t), trace := trace w @ [Wrote p t]\<rparr>"
  by (auto simp: writeFileSimple_def split: if_splits)

lemma writeFileSimple_updateCacheFails:
  "writeFileSimple (e\<lparr>updateCacheFails := b\<rparr>) w p t opts = writeFileSimple e w p t opts"
  by (simp add: writeFileSimple_def)

lemma executeMutating_success_shape:
  assumes "executeMutating e w p call = (r, w1)" and "isError r = Some False"
  shows "\<exists>t. w1 = w\<lparr>files := (files w)(p \<mapsto> t),
                     timers := timers w @ [UpdateCacheTask p t (toolNameOf call)],
                     trace := trace w @ [Wrote p t, Built r,
                                         TimerSet (UpdateCacheTask p t (toolNameOf call))]\<rparr>"
proof (cases call)
  case (RewriteFileContent t0)
  then show ?thesis using assms
    by (auto simp: RewriteFileContentTool_execute_def isError_handleFileSystemError
          respondThenDefer_def split: sum.splits dest!: writeFileSimple_Inr)
next
  case (CreateNewFileWithText t0)
  then show ?thesis using assms
    by (auto simp: CreateNewFileWithTextTool_execute_def isError_handleFileSystemError
          respondThenDefer_def split: sum.splits if_splits dest!: writeFileSimple_Inr)
next
  case (ReplaceFileContentAtPosition a b c d)
  then show ?thesis using assms
    by (auto simp: ReplaceFileContentAtPositionTool_execute_def isError_handleFileSystemError
          isError_failure respondThenDefer_def Let_def
          split: sum.splits if_splits dest!: writeFileSimple_Inr)
next
  case (AppendFileContent c)
  then show ?thesis using assms
    by (auto simp: AppendFileContentTool_execute_def isError_handleFileSystemError
          isError_failure respondThenDefer_def Let_def
          split: sum.splits if_splits dest!: writeFileSimple_Inr)
next
  case (ReplaceSpecificText a b)
  then show ?thesis using assms
    by (auto simp: ReplaceSpecificTextTool_execute_def isError_handleFileSystemError
          isError_failure respondThenDefer_def Let_def
          split: sum.splits if_splits editError.splits prod.splits dest!: writeFileSimple_Inr)
qed

lemma executeMutating_response_independent:
  "fst (executeMutating (e\<lparr>updateCacheFails := b\<rparr>) w p call) = fst (executeMutating e w p call)"
  by (cases call)
     (auto simp: RewriteFileContentTool_execute_def CreateNewFileWithTextTool_execute_def
        ReplaceFileContentAtPositionTool_execute_def AppendFileContentTool_execute_def
        ReplaceSpecificTextTool_execute_def writeFileSimple_updateCacheFails
        handleFileSystemError_def respondThenDefer_def Let_def
        split: sum.splits if_splits editError.splits prod.splits)

lemma isError_success: "isError (success d) = Some False"
  by (simp add: success_def)

lemma replaceAtPosition_Inr_iff:
  "(\<exists>out. replaceAtPosition cur a b cnt off = Inr out)
     \<longleftrightarrow> 1 \<le> a \<and> a \<le> b \<and> b \<le> int (length (String_split (replace_CRLF cur) LF))"
  by (auto simp: replaceAtPosition_def Let_def)

lemma replaceSpecificText_Inr_iff:
  "(\<exists>res. replaceSpecificText decoded oldText newText = Inr res)
     \<longleftrightarrow> String_includes (replace_CRLF_or_CR decoded) (replace_CRLF_or_CR oldText)"
  by (auto simp: replaceSpecificText_def Let_def RegExp_literal_escapeRegExp RegExp_test_sublist
        String_includes_sublist)

lemma executeMutating_succeeds_iff:
  "isError (fst (executeMutating e w p call)) = Some False \<longleftrightarrow> mutationSucceeds e w p call"
proof (cases call)
  case (RewriteFileContent t0)
  then show ?thesis
    by (auto simp: RewriteFileContentTool_execute_def isError_handleFileSystemError
          respondThenDefer_def isError_success writeFileSimple_def split: sum.splits if_splits)
next
  case (CreateNewFileWithText t0)
  then show ?thesis
    by (auto simp: CreateNewFileWithTextTool_execute_def isError_handleFileSystemError
          respondThenDefer_def isError_success writeFileSimple_def split: sum.splits if_splits)
next
  case (ReplaceFileContentAtPosition a b c d)
  show ?thesis
  proof (cases "files w p")
    case None
    then show ?thesis using ReplaceFileContentAtPosition
      by (simp add: ReplaceFileContentAtPositionTool_execute_def readFile_def
            isError_handleFileSystemError)
  next
    case (Some cur)
    let ?off = "case d of None \<Rightarrow> 0 | Some n \<Rightarrow> n"
    show ?thesis
    proof (cases "replaceAtPosition cur a b c ?off")
      case (Inl err)
      then have "\<not> (1 \<le> a \<and> a \<le> b \<and> b \<le> int (length (String_split (replace_CRLF cur) LF)))"
        using replaceAtPosition_Inr_iff[of cur a b c ?off] by auto
      then show ?thesis using ReplaceFileContentAtPosition Some Inl
        by (auto simp: ReplaceFileContentAtPositionTool_execute_def readFile_def isError_failure)
    next
      case (Inr out)
      then have "1 \<le> a \<and> a \<le> b \<and> b \<le> int (length (String_split (replace_CRLF cur) LF))"
        using replaceAtPosition_Inr_iff[of cur a b c ?off] by auto
      then show ?thesis using ReplaceFileContentAtPosition Some Inr
        by (auto simp: ReplaceFileContentAtPositionTool_execute_def readFile_def
              isError_handleFileSystemError respondThenDefer_def isError_success
              writeFileSimple_def)
    qed
  qed
next
  case (AppendFileContent c)
  then show ?thesis
    by (auto simp: AppendFileContentTool_execute_def isError_handleFileSystemError
          isError_failure respondThenDefer_def isError_success writeFileSimple_def
          fileExists_def readFile_def Let_def split: sum.splits if_splits)
next
  case (ReplaceSpecificText a b)
  show ?thesis
  proof (cases "files w p")
    case None
    then show ?thesis using ReplaceSpecificText
      by (simp add: ReplaceSpecificTextTool_execute_def fs_readFile_def isError_failure)
  next
    case (Some fileData)
    show ?thesis
    proof (cases "replaceSpecificText (TextDecoder_decode fileData) a b")
      case (Inl err)
      then have "\<not> String_includes (replace_CRLF_or_CR (TextDecoder_decode fileData)) (replace_CRLF_or_CR a)"
        using replaceSpecificText_Inr_iff[of "TextDecoder_decode fileData" a b] by auto
      then show ?thesis using ReplaceSpecificText Some Inl
        by (cases err) (auto simp: ReplaceSpecificTextTool_execute_def fs_readFile_def isError_failure)
    next
      case (Inr res)
      then have "String_includes (replace_CRLF_or_CR (TextDecoder_decode fileData)) (replace_CRLF_or_CR a)"
        using replaceSpecificText_Inr_iff[of "TextDecoder_decode fileData" a b] by auto
      then show ?thesis using ReplaceSpecificText Some Inr
        by (cases res)
           (auto simp: ReplaceSpecificTextTool_execute_def fs_readFile_def isError_failure
              respondThenDefer_def isError_success writeFileSimple_def)
    qed
  qed
qed

text \<open>
  Claim C1. Each of the five file-mutating tools (rewrite, create, replace at position,
  append, replace specific text) returns a success response exactly when its file is
  there (but for a creation), its range is valid or its old text occurs, and the file
  binding does not fail. Whenever it returns a success response \<open>r\<close>, the steps it has
  added to the run are, in this order: the write of the new text to the path, the
  building of \<open>r\<close>, and the setting of the timer that will update the cache. At the
  return the store holds the new text, the cache is as it was, and the update waits in
  the timer queue. When the deferred update is later rejected, in whatever state the
  world then is, the entry of the same path is invalidated, the store is not touched
  and the only trace is a log entry; the response does not depend on whether the
  update will fail.
\<close>

theorem deferred_cache_update_follows_write_and_response:
  assumes "executeMutating e w p call = (r, w1)"
  shows "(isError r = Some False \<longleftrightarrow> mutationSucceeds e w p call)
   \<and> (isError r = Some False \<longrightarrow> (\<exists>t.
     trace w1 = trace w @ [Wrote p t, Built r, TimerSet (UpdateCacheTask p t (toolNameOf call))]
   \<and> files w1 = (files w)(p \<mapsto> t)
   \<and> cache w1 = cache w
   \<and> timers w1 = timers w @ [UpdateCacheTask p t (toolNameOf call)]
   \<and> (\<forall>e' w2. updateCacheFails e' \<longrightarrow>
         cache (runTask e' (UpdateCacheTask p t (toolNameOf call)) w2) p = None
       \<and> files (runTask e' (UpdateCacheTask p t (toolNameOf call)) w2) = files w2
       \<and> trace (runTask e' (UpdateCacheTask p t (toolNameOf call)) w2)
           = trace w2 @ [CacheUpdateRejected p, TimerSet (OpenEditorTask p (toolNameOf call)),
                         ErrorLogged p, Invalidated p])
   \<and> (\<forall>b. fst (executeMutating (e\<lparr>updateCacheFails := b\<rparr>) w p call) = r)))"
proof -
  have iff: "isError r = Some False \<longleftrightarrow> mutationSucceeds e w p call"
    using executeMutating_succeeds_iff[of e w p call] assms by simp
  have rest: "\<exists>t.
     trace w1 = trace w @ [Wrote p t, Built r, TimerSet (UpdateCacheTask p t (toolNameOf call))]
   \<and> files w1 = (files w)(p \<mapsto> t)
   \<and> cache w1 = cache w
   \<and> timers w1 = timers w @ [UpdateCacheTask p t (toolNameOf call)]
   \<and> (\<forall>e' w2. updateCacheFails e' \<longrightarrow>
         cache (runTask e' (UpdateCacheTask p t (toolNameOf call)) w2) p = None
       \<and> files (runTask e' (UpdateCacheTask p t (toolNameOf call)) w2) = files w2
       \<and> trace (runTask e' (UpdateCacheTask p t (toolNameOf call)) w2)
           = trace w2 @ [CacheUpdateRejected p, TimerSet (OpenEditorTask p (toolNameOf call)),
                         ErrorLogged p, Invalidated p])
   \<and> (\<forall>b. fst (executeMutating (e\<lparr>updateCacheFails := b\<rparr>) w p call) = r)"
    if ok: "isError r = Some False"
  proof -
    from executeMutating_success_shape[OF assms ok] obtain t0 where
      w1: "w1 = w\<lparr>files := (files w)(p \<mapsto> t0),
                  timers := timers w @ [UpdateCacheTask p t0 (toolNameOf call)],
                  trace := trace w @ [Wrote p t0, Built r,
                                      TimerSet (UpdateCacheTask p t0 (toolNameOf call))]\<rparr>"
      by blast
    have "\<forall>b. fst (executeMutating (e\<lparr>updateCacheFails := b\<rparr>) w p call) = r"
      by (simp add: executeMutating_response_independent assms)
    then show ?thesis using w1 by (intro exI[of _ t0]) simp
  qed
  show ?thesis using iff rest by blast
qed

theorem deferred_cache_update_follows_write_and_response_witness:
  "isError (fst (executeMutating sampleEnv (cachedWorld (asc ''old'')) samplePath (RewriteFileContent (asc ''new'')))) = Some False
   \<and> trace (snd (executeMutating sampleEnv (cachedWorld (asc ''old'')) samplePath (RewriteFileContent (asc ''new''))))
       = [Wrote samplePath (asc ''new''), Built (fst (executeMutating sampleEnv (cachedWorld (asc ''old'')) samplePath (RewriteFileContent (asc ''new'')))),
          TimerSet (UpdateCacheTask samplePath (asc ''new'') (asc ''rewrite_file_content''))]
   \<and> cache (snd (executeMutating sampleEnv (cachedWorld (asc ''old'')) samplePath (RewriteFileContent (asc ''new'')))) = cache (cachedWorld (asc ''old''))
   \<and> cache (runTask (sampleEnv\<lparr>updateCacheFails := True\<rparr>)
               (UpdateCacheTask samplePath (asc ''new'') (asc ''rewrite_file_content''))
               (snd (executeMutating sampleEnv (cachedWorld (asc ''old'')) samplePath (RewriteFileContent (asc ''new''))))) samplePath = None
   \<and> isError (fst (executeMutating sampleEnv (\<lparr>files = Map.empty, cache = Map.empty, timers = [], trace = []\<rparr>) samplePath (CreateNewFileWithText (asc ''fresh'')))) = Some False
   \<and> trace (snd (executeMutating sampleEnv (\<lparr>files = Map.empty, cache = Map.empty, timers = [], trace = []\<rparr>) samplePath (CreateNewFileWithText (asc ''fresh''))))
       = [Wrote samplePath (asc ''fresh''), Built (fst (executeMutating sampleEnv (\<lparr>files = Map.empty, cache = Map.empty, timers = [], trace = []\<rparr>) samplePath (CreateNewFileWithText (asc ''fresh'')))),
          TimerSet (UpdateCacheTask samplePath (asc ''fresh'') (asc ''create_new_file_with_text''))]
   \<and> cache (snd (executeMutating sampleEnv (\<lparr>files = Map.empty, cache = Map.empty, timers = [], trace = []\<rparr>) samplePath (CreateNewFileWithText (asc ''fresh'')))) = cache (\<lparr>files = Map.empty, cache = Map.empty, timers = [], trace = []\<rparr>)
   \<and> cache (runTask (sampleEnv\<lparr>updateCacheFails := True\<rparr>)
               (UpdateCacheTask samplePath (asc ''fresh'') (asc ''create_new_file_with_text''))
               (snd (executeMutating sampleEnv (\<lparr>files = Map.empty, cache = Map.empty, timers = [], trace = []\<rparr>) samplePath (CreateNewFileWithText (asc ''fresh''))))) samplePath = None
   \<and> isError (fst (executeMutating sampleEnv (cachedWorld (asc ''a'' @ [LF] @ asc ''b'' @ [LF] @ asc ''c'')) samplePath (ReplaceFileContentAtPosition 2 2 (asc ''X'') None))) = Some False
   \<and> trace (snd (executeMutating sampleEnv (cachedWorld (asc ''a'' @ [LF] @ asc ''b'' @ [LF] @ asc ''c'')) samplePath (ReplaceFileContentAtPosition 2 2 (asc ''X'') None)))
       = [Wrote samplePath (asc ''a'' @ [LF] @ asc ''X'' @ [LF] @ asc ''c''), Built (fst (executeMutating sampleEnv (cachedWorld (asc ''a'' @ [LF] @ asc ''b'' @ [LF] @ asc ''c'')) samplePath (ReplaceFileContentAtPosition 2 2 (asc ''X'') None))),
          TimerSet (UpdateCacheTask samplePath (asc ''a'' @ [LF] @ asc ''X'' @ [LF] @ asc ''c'') (asc ''replace_file_content_at_position''))]
   \<and> cache (snd (executeMutating sampleEnv (cachedWorld (asc ''a'' @ [LF] @ asc ''b'' @ [LF] @ asc ''c'')) samplePath (ReplaceFileContentAtPosition 2 2 (asc ''X'') None))) = cache (cachedWorld (asc ''a'' @ [LF] @ asc ''b'' @ [LF] @ asc ''c''))
   \<and> cache (runTask (sampleEnv\<lparr>updateCacheFails := True\<rparr>)
               (UpdateCacheTask samplePath (asc ''a'' @ [LF] @ asc ''X'' @ [LF] @ asc ''c'') (asc ''replace_file_content_at_position''))
               (snd (executeMutating sampleEnv (cachedWorld (asc ''a'' @ [LF] @ asc ''b'' @ [LF] @ asc ''c'')) samplePath (ReplaceFileContentAtPosition 2 2 (asc ''X'') None)))) samplePath = None
   \<and> isError (fst (executeMutating sampleEnv (cachedWorld (asc ''head'')) samplePath (AppendFileContent (asc ''tail'')))) = Some False
   \<and> trace (snd (executeMutating sampleEnv (cachedWorld (asc ''head'')) samplePath (AppendFileContent (asc ''tail''))))
       = [Wrote samplePath (asc ''headtail''), Built (fst (executeMutating sampleEnv (cachedWorld (asc ''head'')) samplePath (AppendFileContent (asc ''tail'')))),
          TimerSet (UpdateCacheTask samplePath (asc ''headtail'') (asc ''append_file_content''))]
   \<and> cache (snd (executeMutating sampleEnv (cachedWorld (asc ''head'')) samplePath (AppendFileContent (asc ''tail'')))) = cache (cachedWorld (asc ''head''))
   \<and> cache (runTask (sampleEnv\<lparr>updateCacheFails := True\<rparr>)
               (UpdateCacheTask samplePath (asc ''headtail'') (asc ''append_file_content''))
               (snd (executeMutating sampleEnv (cachedWorld (asc ''head'')) samplePath (AppendFileContent (asc ''tail''))))) samplePath = None
   \<and> isError (fst (executeMutating sampleEnv (cachedWorld (asc ''foo.foo'')) samplePath (ReplaceSpecificText (asc ''foo'') (asc ''bar'')))) = Some False
   \<and> trace (snd (executeMutating sampleEnv (cachedWorld (asc ''foo.foo'')) samplePath (ReplaceSpecificText (asc ''foo'') (asc ''bar''))))
       = [Wrote samplePath (asc ''bar.bar''), Built (fst (executeMutating sampleEnv (cachedWorld (asc ''foo.foo'')) samplePath (ReplaceSpecificText (asc ''foo'') (asc ''bar'')))),
          TimerSet (UpdateCacheTask samplePath (asc ''bar.bar'') (asc ''replace_specific_text''))]
   \<and> cache (snd (executeMutating sampleEnv (cachedWorld (asc ''foo.foo'')) samplePath (ReplaceSpecificText (asc ''foo'') (asc ''bar'')))) = cache (cachedWorld (asc ''foo.foo''))
   \<and> cache (runTask (sampleEnv\<lparr>updateCacheFails := True\<rparr>)
               (UpdateCacheTask samplePath (asc ''bar.bar'') (asc ''replace_specific_text''))
               (snd (executeMutating sampleEnv (cachedWorld (asc ''foo.foo'')) samplePath (ReplaceSpecificText (asc ''foo'') (asc ''bar''))))) samplePath = None"
proof -
  have gen: "isError (fst (executeMutating sampleEnv W samplePath C)) = Some False
      \<and> trace (snd (executeMutating sampleEnv W samplePath C))
          = [Wrote samplePath T, Built (fst (executeMutating sampleEnv W samplePath C)),
             TimerSet (UpdateCacheTask samplePath T (toolNameOf C))]
      \<and> cache (snd (executeMutating sampleEnv W samplePath C)) = cache W
      \<and> cache (runTask (sampleEnv\<lparr>updateCacheFails := True\<rparr>)
                  (UpdateCacheTask samplePath T (toolNameOf C))
                  (snd (executeMutating sampleEnv W samplePath C))) samplePath = None"
    if ms: "mutationSucceeds sampleEnv W samplePath C"
      and fl: "files (snd (executeMutating sampleEnv W samplePath C)) samplePath = Some T"
      and tr: "trace W = []"
    for W C T
  proof -
    note th = deferred_cache_update_follows_write_and_response[OF surjective_pairing, of sampleEnv W samplePath C]
    from th ms have ok: "isError (fst (executeMutating sampleEnv W samplePath C)) = Some False"
      by blast
    with th obtain t0 where
      t: "trace (snd (executeMutating sampleEnv W samplePath C))
            = trace W @ [Wrote samplePath t0, Built (fst (executeMutating sampleEnv W samplePath C)),
                TimerSet (UpdateCacheTask samplePath t0 (toolNameOf C))]"
         "files (snd (executeMutating sampleEnv W samplePath C)) = (files W)(samplePath \<mapsto> t0)"
         "cache (snd (executeMutating sampleEnv W samplePath C)) = cache W"
         "\<forall>e' w2. updateCacheFails e' \<longrightarrow>
            cache (runTask e' (UpdateCacheTask samplePath t0 (toolNameOf C)) w2) samplePath = None"
      by blast
    from t(2) fl have "t0 = T" by simp
    moreover have "updateCacheFails (sampleEnv\<lparr>updateCacheFails := True\<rparr>)" by simp
    ultimately show ?thesis using ok t tr by simp
  qed
  have m0: "mutationSucceeds sampleEnv (cachedWorld (asc ''old'')) samplePath (RewriteFileContent (asc ''new''))"
    by code_simp
  have f0: "files (snd (executeMutating sampleEnv (cachedWorld (asc ''old'')) samplePath (RewriteFileContent (asc ''new'')))) samplePath
      = Some (asc ''new'')"
    by code_simp
  have m1: "mutationSucceeds sampleEnv (\<lparr>files = Map.empty, cache = Map.empty, timers = [], trace = []\<rparr>) samplePath (CreateNewFileWithText (asc ''fresh''))"
    by code_simp
  have f1: "files (snd (executeMutating sampleEnv (\<lparr>files = Map.empty, cache = Map.empty, timers = [], trace = []\<rparr>) samplePath (CreateNewFileWithText (asc ''fresh'')))) samplePath
      = Some (asc ''fresh'')"
    by code_simp
  have m2: "mutationSucceeds sampleEnv (cachedWorld (asc ''a'' @ [LF] @ asc ''b'' @ [LF] @ asc ''c'')) samplePath (ReplaceFileContentAtPosition 2 2 (asc ''X'') None)"
    by code_simp
  have f2: "files (snd (executeMutating sampleEnv (cachedWorld (asc ''a'' @ [LF] @ asc ''b'' @ [LF] @ asc ''c'')) samplePath (ReplaceFileContentAtPosition 2 2 (asc ''X'') None))) samplePath
      = Some (asc ''a'' @ [LF] @ asc ''X'' @ [LF] @ asc ''c'')"
    by code_simp
  have m3: "mutationSucceeds sampleEnv (cachedWorld (asc ''head'')) samplePath (AppendFileContent (asc ''tail''))"
    by code_simp
  have f3: "files (snd (executeMutating sampleEnv (cachedWorld (asc ''head'')) samplePath (AppendFileContent (asc ''tail'')))) samplePath
      = Some (asc ''headtail'')"
    by code_simp
  have m4: "mutationSucceeds sampleEnv (cachedWorld (asc ''foo.foo'')) samplePath (ReplaceSpecificText (asc ''foo'') (asc ''bar''))"
    by code_simp
  have f4: "files (snd (executeMutating sampleEnv (cachedWorld (asc ''foo.foo'')) samplePath (ReplaceSpecificText (asc ''foo'') (asc ''bar'')))) samplePath
      = Some (asc ''bar.bar'')"
    by code_simp
  show ?thesis
    using gen[OF m0 f0] gen[OF m1 f1] gen[OF m2 f2] gen[OF m3 f3] gen[OF m4 f4]
    by (simp add: cachedWorld_def)
qed

end
